theory Spec2Isabelle
  imports Main
begin

section \<open>The memoizing cache of \<^verbatim>\<open>ch9/memo3/memo.go\<close>\<close>

text \<open>
  The package keeps a map from keys to the results of a callback, guarded by a
  \<^verbatim>\<open>sync.Mutex\<close>. The development has two layers that are translated from the same
  source lines:
  \<^item> \<open>Get\<close>, the method run by one goroutine with nobody else touching the cache,
    as a state-passing program whose failures are values;
  \<^item> \<open>step\<close>, the method cut into its statements, one atomic step per source line,
    so that several calls can be interleaved.
  The two are related by the lemmas \<open>Get_alone_hit\<close>, \<open>Get_alone_miss\<close> and
  \<open>Get_alone_blocked\<close>.

  The steps are interleaved one at a time: every operation on the mutex is atomic and
  the callback takes effect at the moment it returns. The read and the store of the map
  are atomic as long as the mutex orders them; where it does not (the \<^verbatim>\<open>Unlock\<close> of
  line 38 can let two calls into the critical section together), the access is a data
  race: the trace records it, and the read may then return anything or the runtime may
  stop the process.
\<close>

subsection \<open>Data\<close>

text \<open>
  \<^verbatim>\<open>type result struct { value interface{}; err error }\<close>. An interface value is
  either \<open>nil\<close> (\<open>None\<close>) or holds something (\<open>Some\<close>).
\<close>

record ('v, 'e) result =
  res_value :: "'v option"
  res_err :: "'e option"

text \<open>
  \<^verbatim>\<open>type Func func(key string) (interface{}, error)\<close>. A Go function may read and
  change the rest of the program's state (the source names \<^verbatim>\<open>httpGetBody\<close>), so the
  callback takes that state \<open>'w\<close> and returns the new one beside its result.
\<close>

type_synonym ('v, 'e, 'w) Func = "string \<Rightarrow> 'w \<Rightarrow> ('v, 'e) result \<times> 'w"

text \<open>A \<^verbatim>\<open>sync.Mutex\<close> is locked or not; it does not know who locked it.\<close>

datatype mutex = Unlocked | Locked

text \<open>\<^verbatim>\<open>type Memo struct { f Func; mu sync.Mutex; cache map[string]result }\<close>\<close>

record ('v, 'e, 'w) Memo =
  memo_f :: "('v, 'e, 'w) Func"
  mu :: mutex
  cache :: "string \<rightharpoonup> ('v, 'e) result"

text \<open>\<^verbatim>\<open>return &Memo{f: f, cache: make(map[string]result)}\<close>: the mutex has its zero value.\<close>

definition New :: "('v, 'e, 'w) Func \<Rightarrow> ('v, 'e, 'w) Memo" where
  "New f = \<lparr>memo_f = f, mu = Unlocked, cache = Map.empty\<rparr>"

text \<open>The zero value of \<^verbatim>\<open>result\<close>, and the two-valued map read \<^verbatim>\<open>res, ok := m[key]\<close>.\<close>

definition zero_result :: "('v, 'e) result" where
  "zero_result = \<lparr>res_value = None, res_err = None\<rparr>"

definition lookup :: "(string \<rightharpoonup> ('v, 'e) result) \<Rightarrow> string \<Rightarrow> ('v, 'e) result \<times> bool" where
  "lookup m key = (case m key of None \<Rightarrow> (zero_result, False) | Some r \<Rightarrow> (r, True))"

subsection \<open>One goroutine alone\<close>

text \<open>
  What can go wrong in the method: \<^verbatim>\<open>Unlock\<close> of a mutex that is not locked is the
  runtime's \<^verbatim>\<open>fatal error: sync: unlock of unlocked mutex\<close>, which ends the process;
  \<^verbatim>\<open>Lock\<close> of a mutex that nobody will release never returns.
\<close>

datatype failure = UnlockOfUnlockedMutex | BlockedForever

type_synonym ('a, 's) prog = "'s \<Rightarrow> (failure + 'a) \<times> 's"

definition ret :: "'a \<Rightarrow> ('a, 's) prog" where
  "ret a s = (Inr a, s)"

definition bnd :: "('a, 's) prog \<Rightarrow> ('a \<Rightarrow> ('b, 's) prog) \<Rightarrow> ('b, 's) prog" where
  "bnd p k s = (case p s of (Inl e, s') \<Rightarrow> (Inl e, s') | (Inr a, s') \<Rightarrow> k a s')"

definition mu_Lock :: "(unit, ('v, 'e, 'w) Memo \<times> 'w) prog" where
  "mu_Lock s =
     (case mu (fst s) of
        Unlocked \<Rightarrow> (Inr (), ((fst s)\<lparr>mu := Locked\<rparr>, snd s))
      | Locked \<Rightarrow> (Inl BlockedForever, s))"

definition mu_Unlock :: "(unit, ('v, 'e, 'w) Memo \<times> 'w) prog" where
  "mu_Unlock s =
     (case mu (fst s) of
        Locked \<Rightarrow> (Inr (), ((fst s)\<lparr>mu := Unlocked\<rparr>, snd s))
      | Unlocked \<Rightarrow> (Inl UnlockOfUnlockedMutex, s))"

definition cache_read :: "string \<Rightarrow> (('v, 'e) result \<times> bool, ('v, 'e, 'w) Memo \<times> 'w) prog" where
  "cache_read key s = (Inr (lookup (cache (fst s)) key), s)"

definition cache_write :: "string \<Rightarrow> ('v, 'e) result \<Rightarrow> (unit, ('v, 'e, 'w) Memo \<times> 'w) prog" where
  "cache_write key r s = (Inr (), ((fst s)\<lparr>cache := (cache (fst s))(key \<mapsto> r)\<rparr>, snd s))"

definition call_f :: "string \<Rightarrow> (('v, 'e) result, ('v, 'e, 'w) Memo \<times> 'w) prog" where
  "call_f key s = (case memo_f (fst s) key (snd s) of (r, w') \<Rightarrow> (Inr r, (fst s, w')))"

text \<open>
  \<^verbatim>\<open>func (memo *Memo) Get(key string) (interface{}, error)\<close>, statement by statement
  (lines 29 to 39).
\<close>

definition Get :: "string \<Rightarrow> ('v option \<times> 'e option, ('v, 'e, 'w) Memo \<times> 'w) prog" where
  "Get key =
     bnd mu_Lock (\<lambda>_.
     bnd (cache_read key) (\<lambda>(res, ok).
     bnd mu_Unlock (\<lambda>_.
     bnd (if \<not> ok then
            bnd (call_f key) (\<lambda>res.
            bnd mu_Lock (\<lambda>_.
            bnd (cache_write key res) (\<lambda>_.
            bnd mu_Unlock (\<lambda>_.
            ret res))))
          else ret res) (\<lambda>res.
     bnd mu_Unlock (\<lambda>_.
     ret (res_value res, res_err res))))))"

subsection \<open>Several goroutines: one step per source line\<close>

text \<open>
  The program counter of one call of \<open>Get\<close> names the line it executes next. Line 33
  takes two steps, the call of \<^verbatim>\<open>memo.f\<close> and its return, so that other goroutines can
  run while the callback does.
\<close>

datatype pc = L29 | L30 | L31 | L32 | L33 | L33_run | L34 | L35 | L36 | L38 | L39 | Returned

text \<open>The local variables of one call: its argument, \<^verbatim>\<open>res\<close> and \<^verbatim>\<open>ok\<close>.\<close>

record ('v, 'e) frame =
  fr_key :: string
  fr_pc :: pc
  fr_res :: "('v, 'e) result"
  fr_ok :: bool

text \<open>
  What an observer of the execution sees, tagged with the number of the call: the
  operations on the mutex that succeed, the call of the callback and its return, the
  store into the map, the return of \<open>Get\<close>, a fatal error of the runtime, and a
  data race on the map (\<open>Race\<close>, explained below).
\<close>

datatype ('v, 'e) event =
    Acquire nat
  | Release nat
  | Invoke nat string
  | Yield nat string "('v, 'e) result"
  | Store nat string "('v, 'e) result"
  | Return nat "('v, 'e) result"
  | Fatal nat
  | Race nat

text \<open>
  The whole program: the shared \<open>Memo\<close>, the state the callback works on, one frame
  per call of \<open>Get\<close>, the events so far (oldest first) and whether the runtime has
  stopped the process.

  The last two fields are bookkeeping of the observer, not variables of the program.
  The mutex is the only synchronisation between the calls, and \<^verbatim>\<open>Unlock\<close> releases the
  mutex whoever locked it, so the \<^verbatim>\<open>Unlock\<close> of line 38 can release the lock of a
  call that is between its \<^verbatim>\<open>Lock\<close> and its \<^verbatim>\<open>Unlock\<close>, and a third call can then
  lock: two calls are inside the critical section together. Two accesses to the map
  are ordered by the mutex exactly if the earlier call has done the \<^verbatim>\<open>Unlock\<close> that
  follows its access before the later call does the \<^verbatim>\<open>Lock\<close> that precedes its own;
  otherwise, and if one of the two is the store, they are a data race. So
  \<open>overlap_read\<close> holds the calls whose present critical section overlaps a critical
  section in which another call has read the map, and \<open>overlap_write\<close> those whose
  present critical section overlaps one in which another call has written it.
\<close>

record ('v, 'e, 'w) config =
  memo :: "('v, 'e, 'w) Memo"
  world :: 'w
  frames :: "('v, 'e) frame list"
  trace :: "('v, 'e) event list"
  crashed :: bool
  overlap_read :: "nat set"
  overlap_write :: "nat set"

definition fresh :: "string \<Rightarrow> ('v, 'e) frame" where
  "fresh key = \<lparr>fr_key = key, fr_pc = L29, fr_res = zero_result, fr_ok = False\<rparr>"

text \<open>\<open>init f w keys\<close>: a cache just made by \<open>New f\<close> and one pending call per key.\<close>

definition init :: "('v, 'e, 'w) Func \<Rightarrow> 'w \<Rightarrow> string list \<Rightarrow> ('v, 'e, 'w) config" where
  "init f w keys =
     \<lparr>memo = New f, world = w, frames = map fresh keys, trace = [], crashed = False,
      overlap_read = {}, overlap_write = {}\<rparr>"

text \<open>
  A call is inside the critical section between a \<^verbatim>\<open>Lock\<close> and the next \<^verbatim>\<open>Unlock\<close>:
  before and after the read of line 30, before and after the store of line 35. The
  \<open>sharers\<close> of a call are the other calls that are inside it at the same time.
\<close>

definition in_section :: "pc \<Rightarrow> bool" where
  "in_section p = (p = L30 \<or> p = L31 \<or> p = L35 \<or> p = L36)"

definition sharers :: "nat \<Rightarrow> ('v, 'e, 'w) config \<Rightarrow> nat set" where
  "sharers t c =
     set (filter (\<lambda>b. b \<noteq> t \<and> in_section (fr_pc (frames c ! b))) [0..<length (frames c)])"

text \<open>
  The read of line 30 races if an overlapping critical section has written the map; the
  store of line 35 races if an overlapping critical section has read or written it.
\<close>

definition racing_read :: "nat \<Rightarrow> ('v, 'e, 'w) config \<Rightarrow> bool" where
  "racing_read t c = (t \<in> overlap_write c)"

definition racing_write :: "nat \<Rightarrow> ('v, 'e, 'w) config \<Rightarrow> bool" where
  "racing_write t c = (t \<in> overlap_write c \<or> t \<in> overlap_read c)"

definition race_mark :: "bool \<Rightarrow> nat \<Rightarrow> ('v, 'e) event list" where
  "race_mark b t = (if b then [Race t] else [])"

text \<open>
  \<^verbatim>\<open>Lock\<close> waits while the mutex is locked. The call that gets the lock starts a
  critical section: what it overlaps is what the calls at line 31 (they have read) and
  at line 36 (they have written) have done in theirs.
\<close>

definition lock_step :: "nat \<Rightarrow> pc \<Rightarrow> ('v, 'e, 'w) config \<Rightarrow> ('v, 'e, 'w) config option" where
  "lock_step t p c =
     (case mu (memo c) of
        Locked \<Rightarrow> None
      | Unlocked \<Rightarrow>
          Some (c\<lparr>memo := (memo c)\<lparr>mu := Locked\<rparr>,
                  frames := (frames c)[t := (frames c ! t)\<lparr>fr_pc := p\<rparr>],
                  trace := trace c @ [Acquire t],
                  overlap_read :=
                    (if L31 \<in> fr_pc ` set (frames c) then insert t (overlap_read c)
                     else overlap_read c - {t}),
                  overlap_write :=
                    (if L36 \<in> fr_pc ` set (frames c) then insert t (overlap_write c)
                     else overlap_write c - {t})\<rparr>))"

text \<open>
  \<^verbatim>\<open>Unlock\<close> of a locked mutex unlocks it, whoever locked it; \<^verbatim>\<open>Unlock\<close> of an
  unlocked mutex is the fatal error.
\<close>

definition unlock_step :: "nat \<Rightarrow> pc \<Rightarrow> ('v, 'e, 'w) config \<Rightarrow> ('v, 'e, 'w) config option" where
  "unlock_step t p c =
     (case mu (memo c) of
        Unlocked \<Rightarrow> Some (c\<lparr>trace := trace c @ [Fatal t], crashed := True\<rparr>)
      | Locked \<Rightarrow>
          Some (c\<lparr>memo := (memo c)\<lparr>mu := Unlocked\<rparr>,
                  frames := (frames c)[t := (frames c ! t)\<lparr>fr_pc := p\<rparr>],
                  trace := trace c @ [Release t]\<rparr>))"

text \<open>
  \<open>step t c\<close>: call number \<open>t\<close> executes its next line. \<open>None\<close> means that it cannot
  move: the process is gone, there is no such call, it has returned, or it waits in
  \<^verbatim>\<open>Lock\<close>. The read of line 30 and the store of line 35 take effect at once; when
  they race, the trace says so, and \<open>race_step\<close> below gives the other outcomes that
  the race can have.
\<close>

definition step :: "nat \<Rightarrow> ('v, 'e, 'w) config \<Rightarrow> ('v, 'e, 'w) config option" where
  "step t c =
     (if crashed c \<or> length (frames c) \<le> t then None
      else
        let fr = frames c ! t; key = fr_key fr in
        case fr_pc fr of
          L29 \<Rightarrow> lock_step t L30 c
        | L30 \<Rightarrow>
            (case lookup (cache (memo c)) key of
               (r, b) \<Rightarrow>
                 Some (c\<lparr>frames := (frames c)[t := fr\<lparr>fr_pc := L31, fr_res := r, fr_ok := b\<rparr>],
                         trace := trace c @ race_mark (racing_read t c) t,
                         overlap_read := overlap_read c \<union> sharers t c\<rparr>))
        | L31 \<Rightarrow> unlock_step t L32 c
        | L32 \<Rightarrow>
            Some (c\<lparr>frames := (frames c)[t := fr\<lparr>fr_pc := (if \<not> fr_ok fr then L33 else L38)\<rparr>]\<rparr>)
        | L33 \<Rightarrow>
            Some (c\<lparr>frames := (frames c)[t := fr\<lparr>fr_pc := L33_run\<rparr>],
                    trace := trace c @ [Invoke t key]\<rparr>)
        | L33_run \<Rightarrow>
            (case memo_f (memo c) key (world c) of
               (r, w') \<Rightarrow>
                 Some (c\<lparr>world := w',
                         frames := (frames c)[t := fr\<lparr>fr_pc := L34, fr_res := r\<rparr>],
                         trace := trace c @ [Yield t key r]\<rparr>))
        | L34 \<Rightarrow> lock_step t L35 c
        | L35 \<Rightarrow>
            Some (c\<lparr>memo := (memo c)\<lparr>cache := (cache (memo c))(key \<mapsto> fr_res fr)\<rparr>,
                    frames := (frames c)[t := fr\<lparr>fr_pc := L36\<rparr>],
                    trace := trace c @ race_mark (racing_write t c) t @ [Store t key (fr_res fr)],
                    overlap_write := overlap_write c \<union> sharers t c\<rparr>)
        | L36 \<Rightarrow> unlock_step t L38 c
        | L38 \<Rightarrow> unlock_step t L39 c
        | L39 \<Rightarrow>
            Some (c\<lparr>frames := (frames c)[t := fr\<lparr>fr_pc := Returned\<rparr>],
                    trace := trace c @ [Return t (fr_res fr)]\<rparr>)
        | Returned \<Rightarrow> None)"

text \<open>
  A schedule is the list of calls that move, in order; \<open>exec\<close> runs it with \<open>step\<close>.
\<close>

fun exec :: "nat list \<Rightarrow> ('v, 'e, 'w) config \<Rightarrow> ('v, 'e, 'w) config option" where
  "exec [] c = Some c"
| "exec (t # ts) c = (case step t c of None \<Rightarrow> None | Some c' \<Rightarrow> exec ts c')"

text \<open>
  What else a data race on the map can do. A read that races a store can return any
  pair and any \<^verbatim>\<open>ok\<close> (a torn pair, the zero value, a miss of a key that is there), or
  the runtime notices the store and stops the process
  (\<^verbatim>\<open>fatal error: concurrent map read and map write\<close>); a store that races is carried
  out, as in \<open>step\<close>, or the runtime stops the process
  (\<^verbatim>\<open>fatal error: concurrent map writes\<close>).
\<close>

inductive race_step :: "nat \<Rightarrow> ('v, 'e, 'w) config \<Rightarrow> ('v, 'e, 'w) config \<Rightarrow> bool" where
  torn_read:
    "\<not> crashed c \<Longrightarrow> t < length (frames c) \<Longrightarrow> fr_pc (frames c ! t) = L30 \<Longrightarrow>
     racing_read t c \<Longrightarrow>
     race_step t c
       (c\<lparr>frames := (frames c)[t := (frames c ! t)\<lparr>fr_pc := L31, fr_res := r, fr_ok := b\<rparr>],
          trace := trace c @ [Race t],
          overlap_read := overlap_read c \<union> sharers t c\<rparr>)"
| fatal_read:
    "\<not> crashed c \<Longrightarrow> t < length (frames c) \<Longrightarrow> fr_pc (frames c ! t) = L30 \<Longrightarrow>
     racing_read t c \<Longrightarrow>
     race_step t c (c\<lparr>trace := trace c @ [Race t, Fatal t], crashed := True\<rparr>)"
| fatal_write:
    "\<not> crashed c \<Longrightarrow> t < length (frames c) \<Longrightarrow> fr_pc (frames c ! t) = L35 \<Longrightarrow>
     racing_write t c \<Longrightarrow>
     race_step t c (c\<lparr>trace := trace c @ [Race t, Fatal t], crashed := True\<rparr>)"

text \<open>The executions: any number of steps of any calls, with any outcome of the races.\<close>

inductive reach :: "('v, 'e, 'w) config \<Rightarrow> ('v, 'e, 'w) config \<Rightarrow> bool" where
  reach_refl: "reach c c"
| reach_step: "reach c c' \<Longrightarrow> step t c' = Some c'' \<Longrightarrow> reach c c''"
| reach_race: "reach c c' \<Longrightarrow> race_step t c' c'' \<Longrightarrow> reach c c''"

text \<open>The configuration after a schedule; a schedule that cannot run leaves the start.\<close>

definition after :: "nat list \<Rightarrow> ('v, 'e, 'w) config \<Rightarrow> ('v, 'e, 'w) config" where
  "after ts c = (case exec ts c of None \<Rightarrow> c | Some c' \<Rightarrow> c')"

subsection \<open>Callbacks used in the examples\<close>

text \<open>
  \<open>counter_f\<close> answers with the number of earlier invocations, so two invocations
  never give the same pair; \<open>len_f\<close> answers with the length of the key, whatever
  happened before; \<open>nil_f\<close> always answers \<^verbatim>\<open>(nil, nil)\<close>. All three count their
  invocations in the state they work on.
\<close>

definition counter_f :: "(nat, string, nat) Func" where
  "counter_f key n = (\<lparr>res_value = Some n, res_err = None\<rparr>, Suc n)"

definition len_result :: "string \<Rightarrow> (nat, string) result" where
  "len_result key = \<lparr>res_value = Some (length key), res_err = None\<rparr>"

definition len_f :: "(nat, string, nat) Func" where
  "len_f key n = (len_result key, Suc n)"

definition nil_f :: "(nat, string, nat) Func" where
  "nil_f key n = (zero_result, Suc n)"

subsection \<open>What is observed of an execution\<close>

text \<open>
  How often the callback was invoked for a key: the \<open>Invoke\<close> events of the trace
  that carry the key.
\<close>

fun is_invoke :: "string \<Rightarrow> ('v, 'e) event \<Rightarrow> bool" where
  "is_invoke k (Invoke u k') = (k' = k)"
| "is_invoke k _ = False"

definition invocations :: "string \<Rightarrow> ('v, 'e) event list \<Rightarrow> nat" where
  "invocations k tr = length (filter (is_invoke k) tr)"

text \<open>
  \<open>race_free tr\<close>: no access to the map has raced.
\<close>

fun is_race :: "('v, 'e) event \<Rightarrow> bool" where
  "is_race (Race t) = True"
| "is_race _ = False"

definition race_free :: "('v, 'e) event list \<Rightarrow> bool" where
  "race_free tr = (\<forall>e \<in> set tr. \<not> is_race e)"

text \<open>
  \<open>yielded k r tr\<close>: some invocation of the callback on \<open>k\<close> has returned \<open>r\<close>.
  \<open>stored k r tr\<close>: some call has stored under \<open>k\<close> the pair \<open>r\<close> that its own
  invocation of the callback returned.
\<close>

definition yielded :: "string \<Rightarrow> ('v, 'e) result \<Rightarrow> ('v, 'e) event list \<Rightarrow> bool" where
  "yielded k r tr = (\<exists>u. Yield u k r \<in> set tr)"

definition stored :: "string \<Rightarrow> ('v, 'e) result \<Rightarrow> ('v, 'e) event list \<Rightarrow> bool" where
  "stored k r tr = (\<exists>u. Store u k r \<in> set tr \<and> Yield u k r \<in> set tr)"

subsection \<open>Invariants of the interleaved executions\<close>

text \<open>
  Where a call stands determines how often it has acquired and released the mutex and
  invoked the callback. \<open>expected p ok\<close> gives the three numbers for a call at line
  \<open>p\<close> whose lookup answered \<open>ok\<close>; lines 33 to 36 are only reached after a miss.
\<close>

fun expected :: "pc \<Rightarrow> bool \<Rightarrow> nat \<times> nat \<times> nat" where
  "expected L29 ok = (0, 0, 0)"
| "expected L30 ok = (1, 0, 0)"
| "expected L31 ok = (1, 0, 0)"
| "expected L32 ok = (1, 1, 0)"
| "expected L33 ok = (1, 1, 0)"
| "expected L33_run ok = (1, 1, 1)"
| "expected L34 ok = (1, 1, 1)"
| "expected L35 ok = (2, 1, 1)"
| "expected L36 ok = (2, 1, 1)"
| "expected L38 ok = (if ok then (1, 1, 0) else (2, 2, 1))"
| "expected L39 ok = (if ok then (1, 2, 0) else (2, 3, 1))"
| "expected Returned ok = (if ok then (1, 2, 0) else (2, 3, 1))"

definition on_miss_path :: "pc \<Rightarrow> bool" where
  "on_miss_path p = (p = L33 \<or> p = L33_run \<or> p = L34 \<or> p = L35 \<or> p = L36)"

definition local_inv :: "nat \<Rightarrow> ('v, 'e, 'w) config \<Rightarrow> bool" where
  "local_inv u c =
     ((count_list (trace c) (Acquire u), count_list (trace c) (Release u),
       count_list (trace c) (Invoke u (fr_key (frames c ! u))))
        = expected (fr_pc (frames c ! u)) (fr_ok (frames c ! u))
      \<and> (on_miss_path (fr_pc (frames c ! u)) \<longrightarrow> \<not> fr_ok (frames c ! u)))"

text \<open>
  \<open>has_result fr\<close>: the variable \<^verbatim>\<open>res\<close> of the call holds a pair read from the cache
  or returned by the callback (and not the zero value of a miss).
\<close>

definition has_result :: "('v, 'e) frame \<Rightarrow> bool" where
  "has_result fr =
     (case fr_pc fr of
        L29 \<Rightarrow> False | L30 \<Rightarrow> False | L31 \<Rightarrow> fr_ok fr | L32 \<Rightarrow> fr_ok fr
      | L33 \<Rightarrow> False | L33_run \<Rightarrow> False | _ \<Rightarrow> True)"

text \<open>
  Where the pair in the \<^verbatim>\<open>res\<close> of call \<open>u\<close> comes from: after a hit, it is a pair
  that some call stored under the key; after a miss, it is what the call's own
  invocation of the callback returned.
\<close>

definition res_source :: "nat \<Rightarrow> ('v, 'e) frame \<Rightarrow> ('v, 'e) event list \<Rightarrow> bool" where
  "res_source u fr tr =
     (if fr_ok fr then stored (fr_key fr) (fr_res fr) tr
      else Yield u (fr_key fr) (fr_res fr) \<in> set tr)"

text \<open>
  Every pair in the cache was stored by a call that got it from the callback, every
  call's \<^verbatim>\<open>res\<close> has its source, and a \<open>Return\<close> event carries the \<^verbatim>\<open>res\<close> of a call
  that has returned. This holds as long as no access to the map has raced (\<open>sound\<close>).
\<close>

definition prov :: "('v, 'e, 'w) config \<Rightarrow> bool" where
  "prov c =
     ((\<forall>k r. cache (memo c) k = Some r \<longrightarrow> stored k r (trace c)) \<and>
      (\<forall>u < length (frames c). has_result (frames c ! u) \<longrightarrow>
          res_source u (frames c ! u) (trace c)) \<and>
      (\<forall>u r. Return u r \<in> set (trace c) \<longrightarrow>
          u < length (frames c) \<and> fr_pc (frames c ! u) = Returned \<and> fr_res (frames c ! u) = r))"

definition sound :: "('v, 'e, 'w) config \<Rightarrow> bool" where
  "sound c = (race_free (trace c) \<longrightarrow> prov c)"

text \<open>
  When the callback's answer depends on the key only (\<open>g\<close>), every answer in the
  trace is \<open>g\<close> of its key. Every answer belongs to an invocation.
\<close>

definition det_inv :: "(string \<Rightarrow> ('v, 'e) result) \<Rightarrow> ('v, 'e, 'w) config \<Rightarrow> bool" where
  "det_inv g c = (\<forall>u k r. Yield u k r \<in> set (trace c) \<longrightarrow> r = g k)"

definition asked_inv :: "('v, 'e, 'w) config \<Rightarrow> bool" where
  "asked_inv c = (\<forall>u k r. Yield u k r \<in> set (trace c) \<longrightarrow> Invoke u k \<in> set (trace c))"

text \<open>A call invokes the callback on its own key.\<close>

definition own_inv :: "('v, 'e, 'w) config \<Rightarrow> bool" where
  "own_inv c =
     (\<forall>u k. Invoke u k \<in> set (trace c) \<longrightarrow>
        u < length (frames c) \<and> k = fr_key (frames c ! u))"

text \<open>
  \<open>invoked k fr\<close>: the call is on key \<open>k\<close> and has passed the call at line 33. The
  invocations of the callback for \<open>k\<close> are as many as such calls.
\<close>

definition invoked :: "string \<Rightarrow> ('v, 'e) frame \<Rightarrow> bool" where
  "invoked k fr =
     (fr_key fr = k \<and>
      (case fr_pc fr of
         L33_run \<Rightarrow> True | L34 \<Rightarrow> True | L35 \<Rightarrow> True | L36 \<Rightarrow> True
       | L38 \<Rightarrow> \<not> fr_ok fr | L39 \<Rightarrow> \<not> fr_ok fr | Returned \<Rightarrow> \<not> fr_ok fr
       | _ \<Rightarrow> False))"

definition count_inv :: "string \<Rightarrow> ('v, 'e, 'w) config \<Rightarrow> bool" where
  "count_inv k c = (invocations k (trace c) = length (filter (invoked k) (frames c)))"

text \<open>
  \<open>pending_store fr\<close>: the lookup of the call has missed and its store at line 35 is
  still to come. \<open>quiet k c\<close>: no call on \<open>k\<close> is in that state.
\<close>

definition pending_store :: "('v, 'e) frame \<Rightarrow> bool" where
  "pending_store fr =
     (case fr_pc fr of
        L31 \<Rightarrow> \<not> fr_ok fr | L32 \<Rightarrow> \<not> fr_ok fr
      | L33 \<Rightarrow> True | L33_run \<Rightarrow> True | L34 \<Rightarrow> True | L35 \<Rightarrow> True
      | _ \<Rightarrow> False)"

definition quiet :: "string \<Rightarrow> ('v, 'e, 'w) config \<Rightarrow> bool" where
  "quiet k c =
     (\<forall>u < length (frames c). fr_key (frames c ! u) = k \<longrightarrow> \<not> pending_store (frames c ! u))"

section \<open>Properties\<close>

subsection \<open>Unfolding and case analysis of a step\<close>

lemmas step_unfold = step_def lock_step_def unlock_step_def Let_def

lemmas prog_defs = Get_def bnd_def ret_def mu_Lock_def mu_Unlock_def cache_read_def
  cache_write_def call_f_def lookup_def

lemmas run_defs = step_def lock_step_def unlock_step_def lookup_def after_def init_def New_def
  fresh_def zero_result_def Let_def race_mark_def racing_read_def racing_write_def
  sharers_def in_section_def

text \<open>
  A step is one of nine things; each case names the line and gives the new
  configuration.
\<close>

lemma stepE [consumes 1, case_names lock unlock fatal read test invoke yield store return]:
  assumes "step t c = Some c'"
  obtains
    (lock) p p' where "t < length (frames c)" "\<not> crashed c" "fr_pc (frames c ! t) = p"
      "(p, p') = (L29, L30) \<or> (p, p') = (L34, L35)" "mu (memo c) = Unlocked"
      "c' = c\<lparr>memo := (memo c)\<lparr>mu := Locked\<rparr>,
              frames := (frames c)[t := (frames c ! t)\<lparr>fr_pc := p'\<rparr>],
              trace := trace c @ [Acquire t],
              overlap_read :=
                (if L31 \<in> fr_pc ` set (frames c) then insert t (overlap_read c)
                 else overlap_read c - {t}),
              overlap_write :=
                (if L36 \<in> fr_pc ` set (frames c) then insert t (overlap_write c)
                 else overlap_write c - {t})\<rparr>"
  | (unlock) p p' where "t < length (frames c)" "\<not> crashed c" "fr_pc (frames c ! t) = p"
      "(p, p') = (L31, L32) \<or> (p, p') = (L36, L38) \<or> (p, p') = (L38, L39)"
      "mu (memo c) = Locked"
      "c' = c\<lparr>memo := (memo c)\<lparr>mu := Unlocked\<rparr>,
              frames := (frames c)[t := (frames c ! t)\<lparr>fr_pc := p'\<rparr>],
              trace := trace c @ [Release t]\<rparr>"
  | (fatal) "t < length (frames c)" "\<not> crashed c"
      "fr_pc (frames c ! t) = L31 \<or> fr_pc (frames c ! t) = L36 \<or> fr_pc (frames c ! t) = L38"
      "mu (memo c) = Unlocked"
      "c' = c\<lparr>trace := trace c @ [Fatal t], crashed := True\<rparr>"
  | (read) "t < length (frames c)" "\<not> crashed c" "fr_pc (frames c ! t) = L30"
      "c' = c\<lparr>frames := (frames c)[t := (frames c ! t)
               \<lparr>fr_pc := L31,
                fr_res := fst (lookup (cache (memo c)) (fr_key (frames c ! t))),
                fr_ok := snd (lookup (cache (memo c)) (fr_key (frames c ! t)))\<rparr>],
              trace := trace c @ race_mark (racing_read t c) t,
              overlap_read := overlap_read c \<union> sharers t c\<rparr>"
  | (test) "t < length (frames c)" "\<not> crashed c" "fr_pc (frames c ! t) = L32"
      "c' = c\<lparr>frames := (frames c)[t := (frames c ! t)
               \<lparr>fr_pc := (if \<not> fr_ok (frames c ! t) then L33 else L38)\<rparr>]\<rparr>"
  | (invoke) "t < length (frames c)" "\<not> crashed c" "fr_pc (frames c ! t) = L33"
      "c' = c\<lparr>frames := (frames c)[t := (frames c ! t)\<lparr>fr_pc := L33_run\<rparr>],
              trace := trace c @ [Invoke t (fr_key (frames c ! t))]\<rparr>"
  | (yield) "t < length (frames c)" "\<not> crashed c" "fr_pc (frames c ! t) = L33_run"
      "c' = c\<lparr>world := snd (memo_f (memo c) (fr_key (frames c ! t)) (world c)),
              frames := (frames c)[t := (frames c ! t)
                \<lparr>fr_pc := L34, fr_res := fst (memo_f (memo c) (fr_key (frames c ! t)) (world c))\<rparr>],
              trace := trace c @ [Yield t (fr_key (frames c ! t))
                (fst (memo_f (memo c) (fr_key (frames c ! t)) (world c)))]\<rparr>"
  | (store) "t < length (frames c)" "\<not> crashed c" "fr_pc (frames c ! t) = L35"
      "c' = c\<lparr>memo := (memo c)\<lparr>cache := (cache (memo c))
                 (fr_key (frames c ! t) \<mapsto> fr_res (frames c ! t))\<rparr>,
              frames := (frames c)[t := (frames c ! t)\<lparr>fr_pc := L36\<rparr>],
              trace := trace c @ race_mark (racing_write t c) t
                @ [Store t (fr_key (frames c ! t)) (fr_res (frames c ! t))],
              overlap_write := overlap_write c \<union> sharers t c\<rparr>"
  | (return) "t < length (frames c)" "\<not> crashed c" "fr_pc (frames c ! t) = L39"
      "c' = c\<lparr>frames := (frames c)[t := (frames c ! t)\<lparr>fr_pc := Returned\<rparr>],
              trace := trace c @ [Return t (fr_res (frames c ! t))]\<rparr>"
proof -
  from assms have v: "t < length (frames c)" "\<not> crashed c"
    by (auto simp: step_def split: if_splits)
  show thesis
  proof (cases "fr_pc (frames c ! t)")
    case L29
    with assms v show ?thesis
      by (intro lock[of L29 L30]) (auto simp: step_unfold split: mutex.splits)
  next
    case L30
    with assms v show ?thesis
      by (intro read) (auto simp: step_unfold split: prod.splits)
  next
    case L31
    show ?thesis
    proof (cases "mu (memo c)")
      case Unlocked
      with assms v L31 show ?thesis
        by (intro fatal) (auto simp: step_unfold)
    next
      case Locked
      with assms v L31 show ?thesis
        by (intro unlock[of L31 L32]) (auto simp: step_unfold)
    qed
  next
    case L32
    with assms v show ?thesis
      by (intro test) (auto simp: step_unfold)
  next
    case L33
    with assms v show ?thesis
      by (intro invoke) (auto simp: step_unfold)
  next
    case L33_run
    with assms v show ?thesis
      by (intro yield) (auto simp: step_unfold split: prod.splits)
  next
    case L34
    with assms v show ?thesis
      by (intro lock[of L34 L35]) (auto simp: step_unfold split: mutex.splits)
  next
    case L35
    with assms v show ?thesis
      by (intro store) (auto simp: step_unfold)
  next
    case L36
    show ?thesis
    proof (cases "mu (memo c)")
      case Unlocked
      with assms v L36 show ?thesis
        by (intro fatal) (auto simp: step_unfold)
    next
      case Locked
      with assms v L36 show ?thesis
        by (intro unlock[of L36 L38]) (auto simp: step_unfold)
    qed
  next
    case L38
    show ?thesis
    proof (cases "mu (memo c)")
      case Unlocked
      with assms v L38 show ?thesis
        by (intro fatal) (auto simp: step_unfold)
    next
      case Locked
      with assms v L38 show ?thesis
        by (intro unlock[of L38 L39]) (auto simp: step_unfold)
    qed
  next
    case L39
    with assms v show ?thesis
      by (intro return) (auto simp: step_unfold)
  next
    case Returned
    with assms v show ?thesis
      by (auto simp: step_unfold)
  qed
qed

lemma step_length: "step t c = Some c' \<Longrightarrow> length (frames c') = length (frames c)"
  by (erule stepE) simp_all

lemma step_key: "step t c = Some c' \<Longrightarrow> fr_key (frames c' ! u) = fr_key (frames c ! u)"
  by (erule stepE) (simp_all add: nth_list_update)

lemma step_memo_f: "step t c = Some c' \<Longrightarrow> memo_f (memo c') = memo_f (memo c)"
  by (erule stepE) simp_all

lemma step_present:
  "step t c = Some c' \<Longrightarrow> cache (memo c) k = Some r \<Longrightarrow> \<exists>r'. cache (memo c') k = Some r'"
  by (erule stepE) auto

lemma step_frame:
  "step t c = Some c' \<Longrightarrow> k' \<noteq> fr_key (frames c ! t) \<Longrightarrow> cache (memo c') k' = cache (memo c) k'"
  by (erule stepE) auto

subsection \<open>What a race leaves alone\<close>

lemma race_mark_mem [simp]: "e \<in> set (race_mark b t) \<longleftrightarrow> b \<and> e = Race t"
  by (auto simp: race_mark_def)

lemma race_mark_count [simp]:
  "count_list (race_mark b t) e = (if b \<and> e = Race t then 1 else 0)"
  by (simp add: race_mark_def)

lemma race_length: "race_step t c c' \<Longrightarrow> length (frames c') = length (frames c)"
  by (erule race_step.cases) simp_all

lemma race_key: "race_step t c c' \<Longrightarrow> fr_key (frames c' ! u) = fr_key (frames c ! u)"
  by (erule race_step.cases) (simp_all add: nth_list_update)

lemma race_memo: "race_step t c c' \<Longrightarrow> memo c' = memo c"
  by (erule race_step.cases) simp_all

lemma race_not_free: "race_step t c c' \<Longrightarrow> \<not> race_free (trace c')"
  by (erule race_step.cases) (auto simp: race_free_def)

lemma race_free_append: "race_free (xs @ ys) = (race_free xs \<and> race_free ys)"
  by (auto simp: race_free_def)

lemma step_trace: "step t c = Some c' \<Longrightarrow> \<exists>es. trace c' = trace c @ es"
  by (erule stepE) simp_all

lemma step_race_free: "step t c = Some c' \<Longrightarrow> race_free (trace c') \<Longrightarrow> race_free (trace c)"
  using step_trace[of t c c'] by (auto simp: race_free_append)

subsection \<open>Reachability\<close>

lemma reach_length: "reach c c' \<Longrightarrow> length (frames c') = length (frames c)"
  by (induction rule: reach.induct) (auto dest: step_length race_length)

lemma reach_key: "reach c c' \<Longrightarrow> fr_key (frames c' ! u) = fr_key (frames c ! u)"
proof (induction rule: reach.induct)
  case (reach_refl c)
  show ?case by simp
next
  case (reach_step c c' t c'')
  from reach_step.hyps(2) have "fr_key (frames c'' ! u) = fr_key (frames c' ! u)"
    by (rule step_key)
  with reach_step.IH show ?case by simp
next
  case (reach_race c c' t c'')
  from reach_race.hyps(2) have "fr_key (frames c'' ! u) = fr_key (frames c' ! u)"
    by (rule race_key)
  with reach_race.IH show ?case by simp
qed

lemma reach_memo_f: "reach c c' \<Longrightarrow> memo_f (memo c') = memo_f (memo c)"
  by (induction rule: reach.induct) (auto dest: step_memo_f race_memo)

lemma reach_trans: "reach c' c'' \<Longrightarrow> reach c c' \<Longrightarrow> reach c c''"
  by (induction rule: reach.induct) (auto intro: reach.intros)

lemma exec_reach: "exec ts c = Some c' \<Longrightarrow> reach c c'"
proof (induction ts arbitrary: c)
  case Nil
  then show ?case by (simp add: reach_refl)
next
  case (Cons t ts)
  then obtain d where d: "step t c = Some d" "exec ts d = Some c'"
    by (auto split: option.splits)
  from d(1) have "reach c d" using reach_refl reach_step by blast
  with Cons.IH[OF d(2)] show ?case by (rule reach_trans)
qed

lemma after_reach: "reach c (after ts c)"
  by (auto simp: after_def reach_refl exec_reach split: option.splits)

lemma reach_race_free: "reach c c' \<Longrightarrow> race_free (trace c') \<Longrightarrow> race_free (trace c)"
  by (induction rule: reach.induct) (auto dest: step_race_free race_not_free)

lemma init_frames [simp]: "length (frames (init f w keys)) = length keys"
  by (simp add: init_def)

lemma init_key [simp]: "u < length keys \<Longrightarrow> fr_key (frames (init f w keys) ! u) = keys ! u"
  by (simp add: init_def fresh_def)

lemma reach_init_keys: "reach (init f w keys) c \<Longrightarrow> map fr_key (frames c) = keys"
proof (rule nth_equalityI)
  assume r: "reach (init f w keys) c"
  from reach_length[OF r] show "length (map fr_key (frames c)) = length keys" by simp
  fix i assume "i < length (map fr_key (frames c))"
  with reach_length[OF r] have i: "i < length keys" "i < length (frames c)" by simp_all
  from reach_key[OF r, of i] i show "map fr_key (frames c) ! i = keys ! i" by simp
qed

subsection \<open>The invariants hold\<close>

lemma local_inv_step:
  assumes "step t c = Some c'" "local_inv u c"
  shows "local_inv u c'"
proof (cases "u = t")
  case False
  from assms(1) show ?thesis
    by (cases rule: stepE) (use assms(2) False in \<open>simp_all add: local_inv_def race_mark_def\<close>)
next
  case True
  from assms(1) show ?thesis
    by (cases rule: stepE)
      (use assms(2) True in \<open>auto simp add: local_inv_def on_miss_path_def race_mark_def\<close>)
qed

lemma local_inv_race:
  assumes "race_step t c c'" "local_inv u c"
  shows "local_inv u c'"
proof (cases "u = t")
  case False
  from assms(1) show ?thesis
    by (cases rule: race_step.cases) (use assms(2) False in \<open>simp_all add: local_inv_def\<close>)
next
  case True
  from assms(1) show ?thesis
    by (cases rule: race_step.cases)
      (use assms(2) True in \<open>auto simp add: local_inv_def on_miss_path_def\<close>)
qed

lemma local_inv_init: "u < length keys \<Longrightarrow> local_inv u (init f w keys)"
  by (simp add: local_inv_def init_def fresh_def on_miss_path_def)

lemma local_inv_reach: "reach c c' \<Longrightarrow> local_inv u c \<Longrightarrow> local_inv u c'"
  by (induction rule: reach.induct) (auto intro: local_inv_step local_inv_race)

lemma reach_init_local:
  "reach (init f w keys) c \<Longrightarrow> u < length keys \<Longrightarrow> local_inv u c"
  by (erule local_inv_reach) (rule local_inv_init)

text \<open>The calls that move are calls of the execution.\<close>

lemma reach_init_mover:
  assumes "reach (init f w keys) c" "step t c = Some c' \<or> race_step t c c'"
  shows "t < length keys \<and> local_inv t c"
proof -
  from assms(2) have "t < length (frames c)"
  proof
    assume "step t c = Some c'"
    then show ?thesis by (cases rule: stepE)
  next
    assume "race_step t c c'"
    then show ?thesis by (cases rule: race_step.cases) simp_all
  qed
  with reach_length[OF assms(1)] have "t < length keys" by simp
  with assms(1) show ?thesis by (simp add: reach_init_local)
qed

lemma stored_append [simp]: "stored k r tr \<Longrightarrow> stored k r (tr @ es)"
  by (auto simp: stored_def)

lemma stored_last [simp]:
  "Yield u k r \<in> set tr \<Longrightarrow> stored k r (tr @ es @ [Store u k r])"
  by (auto simp: stored_def)

lemma res_source_append [simp]: "res_source u fr tr \<Longrightarrow> res_source u fr (tr @ es)"
  by (auto simp: res_source_def)

lemma res_source_pc [simp]: "res_source u (fr\<lparr>fr_pc := p\<rparr>) tr = res_source u fr tr"
  by (simp add: res_source_def)

lemma prov_init: "prov (init f w keys)"
  by (simp add: prov_def init_def New_def fresh_def has_result_def)

lemma prov_step:
  assumes "step t c = Some c'" "prov c" "local_inv t c"
  shows "prov c'"
proof -
  from assms(2) have
    A: "\<And>k r. cache (memo c) k = Some r \<Longrightarrow> stored k r (trace c)" and
    B: "\<And>u. u < length (frames c) \<Longrightarrow> has_result (frames c ! u) \<Longrightarrow>
          res_source u (frames c ! u) (trace c)" and
    C: "\<And>u r. Return u r \<in> set (trace c) \<Longrightarrow>
          u < length (frames c) \<and> fr_pc (frames c ! u) = Returned \<and> fr_res (frames c ! u) = r"
    unfolding prov_def by blast+
  from assms(3) have
    M: "on_miss_path (fr_pc (frames c ! t)) \<Longrightarrow> \<not> fr_ok (frames c ! t)"
    by (simp add: local_inv_def)
  from assms(1) show ?thesis
  proof (cases rule: stepE)
    case (lock p p')
    then show ?thesis using A B C
      by (auto simp: prov_def nth_list_update has_result_def)
  next
    case (unlock p p')
    then show ?thesis using A B C
      by (auto simp: prov_def nth_list_update has_result_def)
  next
    case fatal
    then show ?thesis using A B C
      by (auto simp: prov_def)
  next
    case read
    then show ?thesis using A B C
      by (auto simp: prov_def nth_list_update has_result_def lookup_def res_source_def
          split: option.splits)
  next
    case test
    then show ?thesis using A B C
      by (auto simp: prov_def nth_list_update has_result_def)
  next
    case invoke
    then show ?thesis using A B C
      by (auto simp: prov_def nth_list_update has_result_def)
  next
    case yield
    with M have "\<not> fr_ok (frames c ! t)" by (simp add: on_miss_path_def)
    with yield show ?thesis using A B C
      by (auto simp: prov_def nth_list_update has_result_def res_source_def)
  next
    case store
    with M have nok: "\<not> fr_ok (frames c ! t)" by (simp add: on_miss_path_def)
    from store have "has_result (frames c ! t)" by (simp add: has_result_def)
    with B store(1) nok
    have own: "Yield t (fr_key (frames c ! t)) (fr_res (frames c ! t)) \<in> set (trace c)"
      by (auto simp: res_source_def)
    have a: "\<And>k r. cache (memo c') k = Some r \<Longrightarrow> stored k r (trace c')"
      using store A own by (auto split: if_splits)
    have b: "res_source u (frames c' ! u) (trace c')"
      if u: "u < length (frames c')" "has_result (frames c' ! u)" for u
    proof (cases "u = t")
      case True
      from B[OF store(1)] store(3) have "res_source t (frames c ! t) (trace c)"
        by (simp add: has_result_def)
      with True store show ?thesis by simp
    next
      case False
      with u store have "u < length (frames c)" "has_result (frames c ! u)" by simp_all
      then have "res_source u (frames c ! u) (trace c)" by (rule B)
      with False store show ?thesis by simp
    qed
    have c: "\<And>u r. Return u r \<in> set (trace c') \<Longrightarrow>
          u < length (frames c') \<and> fr_pc (frames c' ! u) = Returned \<and> fr_res (frames c' ! u) = r"
      using store C by (auto simp: nth_list_update race_mark_def split: if_splits)
    from a b c show ?thesis unfolding prov_def by blast
  next
    case return
    then show ?thesis using A B C
      by (auto simp: prov_def nth_list_update has_result_def)
  qed
qed

lemma sound_step:
  assumes "step t c = Some c'" "sound c" "local_inv t c"
  shows "sound c'"
  unfolding sound_def
proof
  assume "race_free (trace c')"
  with assms(1) have "race_free (trace c)" by (rule step_race_free)
  with assms(2) have "prov c" by (simp add: sound_def)
  with assms(1) show "prov c'" using assms(3) by (rule prov_step)
qed

lemma sound_race: "race_step t c c' \<Longrightarrow> sound c'"
  by (simp add: sound_def race_not_free)

lemma reach_init_sound: "reach (init f w keys) c \<Longrightarrow> sound c"
proof (induction "init f w keys" c rule: reach.induct)
  case reach_refl
  show ?case by (simp add: sound_def prov_init)
next
  case (reach_step c' t c'')
  from reach_init_mover[OF reach_step.hyps(1)] reach_step.hyps(3)
  have "local_inv t c'" by blast
  with reach_step.hyps(3) reach_step.hyps(2) show ?case by (rule sound_step)
next
  case (reach_race c' t c'')
  from reach_race.hyps(3) show ?case by (rule sound_race)
qed

lemma det_inv_step:
  assumes "step t c = Some c'" "det_inv g c" "\<forall>k w. fst (memo_f (memo c) k w) = g k"
  shows "det_inv g c'"
  using assms(1)
  by (cases rule: stepE) (use assms(2,3) in \<open>auto simp: det_inv_def race_mark_def\<close>)

lemma det_inv_race: "race_step t c c' \<Longrightarrow> det_inv g c \<Longrightarrow> det_inv g c'"
  by (erule race_step.cases) (auto simp: det_inv_def)

lemma det_inv_reach:
  "reach c c' \<Longrightarrow> det_inv g c \<Longrightarrow> \<forall>k w. fst (memo_f (memo c) k w) = g k \<Longrightarrow> det_inv g c'"
proof (induction rule: reach.induct)
  case (reach_refl c)
  then show ?case by simp
next
  case (reach_step c c' t c'')
  then have "det_inv g c'" by simp
  moreover have "\<forall>k w. fst (memo_f (memo c') k w) = g k"
    using reach_step.prems(2) reach_memo_f[OF reach_step.hyps(1)] by simp
  ultimately show ?case using reach_step.hyps(2) det_inv_step by blast
next
  case (reach_race c c' t c'')
  then have "det_inv g c'" by simp
  with reach_race.hyps(2) show ?case by (rule det_inv_race)
qed

lemma count_list_pos_mem: "0 < count_list xs x \<Longrightarrow> x \<in> set xs"
  by (induction xs) (auto split: if_splits)

lemma count_list_not_mem: "x \<notin> set xs \<Longrightarrow> count_list xs x = 0"
  by (induction xs) auto

lemma asked_inv_step:
  assumes "step t c = Some c'" "asked_inv c" "local_inv t c"
  shows "asked_inv c'"
  using assms(1)
proof (cases rule: stepE)
  case yield
  from assms(3) yield(3) have "count_list (trace c) (Invoke t (fr_key (frames c ! t))) = 1"
    by (simp add: local_inv_def)
  then have "Invoke t (fr_key (frames c ! t)) \<in> set (trace c)"
    by (intro count_list_pos_mem) simp
  with yield assms(2) show ?thesis by (auto simp: asked_inv_def)
qed (use assms(2) in \<open>auto simp: asked_inv_def race_mark_def\<close>)

lemma asked_inv_race: "race_step t c c' \<Longrightarrow> asked_inv c \<Longrightarrow> asked_inv c'"
  by (erule race_step.cases) (auto simp: asked_inv_def)

lemma asked_inv_init: "asked_inv (init f w keys)"
  by (simp add: asked_inv_def init_def)

lemma reach_init_asked: "reach (init f w keys) c \<Longrightarrow> asked_inv c"
proof (induction "init f w keys" c rule: reach.induct)
  case reach_refl
  show ?case by (rule asked_inv_init)
next
  case (reach_step c' t c'')
  from reach_init_mover[OF reach_step.hyps(1)] reach_step.hyps(3)
  have "local_inv t c'" by blast
  with reach_step.hyps(3) reach_step.hyps(2) show ?case by (rule asked_inv_step)
next
  case (reach_race c' t c'')
  from reach_race.hyps(3) reach_race.hyps(2) show ?case by (rule asked_inv_race)
qed

lemma own_inv_step: "step t c = Some c' \<Longrightarrow> own_inv c \<Longrightarrow> own_inv c'"
  by (erule stepE) (auto simp: own_inv_def nth_list_update race_mark_def)

lemma own_inv_race: "race_step t c c' \<Longrightarrow> own_inv c \<Longrightarrow> own_inv c'"
  by (erule race_step.cases) (auto simp: own_inv_def nth_list_update)

lemma reach_init_own: "reach (init f w keys) c \<Longrightarrow> own_inv c"
proof (induction "init f w keys" c rule: reach.induct)
  case reach_refl
  show ?case by (simp add: own_inv_def init_def)
next
  case (reach_step c' t c'')
  from reach_step.hyps(3) reach_step.hyps(2) show ?case by (rule own_inv_step)
next
  case (reach_race c' t c'')
  from reach_race.hyps(3) reach_race.hyps(2) show ?case by (rule own_inv_race)
qed

lemma length_filter_update:
  "i < length xs \<Longrightarrow>
   length (filter P (xs[i := y])) + (if P (xs ! i) then 1 else 0)
     = length (filter P xs) + (if P y then 1 else 0)"
proof (induction xs arbitrary: i)
  case Nil
  then show ?case by simp
next
  case (Cons x xs)
  show ?case
  proof (cases i)
    case 0
    then show ?thesis by simp
  next
    case (Suc j)
    with Cons.prems have "j < length xs" by simp
    from Cons.IH[OF this] Suc show ?thesis by simp
  qed
qed

lemma filter_update_same:
  "i < length xs \<Longrightarrow> P y = P (xs ! i) \<Longrightarrow> length (filter P (xs[i := y])) = length (filter P xs)"
  using length_filter_update[of i xs P y] by (simp split: if_splits)

lemma filter_update_gain:
  "i < length xs \<Longrightarrow> P y \<Longrightarrow> \<not> P (xs ! i) \<Longrightarrow>
   length (filter P (xs[i := y])) = Suc (length (filter P xs))"
  using length_filter_update[of i xs P y] by simp

lemma race_mark_invoke [simp]: "filter (is_invoke k) (race_mark b t) = []"
  by (simp add: race_mark_def)

lemma count_inv_step:
  assumes "step t c = Some c'" "count_inv k c" "local_inv t c"
  shows "count_inv k c'"
  using assms(1)
proof (cases rule: stepE)
  case (lock p p')
  then have "invoked k ((frames c ! t)\<lparr>fr_pc := p'\<rparr>) = invoked k (frames c ! t)"
    by (auto simp: invoked_def)
  with lock assms(2) show ?thesis
    by (simp add: count_inv_def invocations_def filter_update_same)
next
  case (unlock p p')
  from assms(3) unlock have "fr_pc (frames c ! t) = L36 \<Longrightarrow> \<not> fr_ok (frames c ! t)"
    by (simp add: local_inv_def on_miss_path_def)
  with unlock have "invoked k ((frames c ! t)\<lparr>fr_pc := p'\<rparr>) = invoked k (frames c ! t)"
    by (auto simp: invoked_def)
  with unlock assms(2) show ?thesis
    by (simp add: count_inv_def invocations_def filter_update_same)
next
  case fatal
  with assms(2) show ?thesis by (simp add: count_inv_def invocations_def)
next
  case read
  then have "invoked k ((frames c ! t)
               \<lparr>fr_pc := L31,
                fr_res := fst (lookup (cache (memo c)) (fr_key (frames c ! t))),
                fr_ok := snd (lookup (cache (memo c)) (fr_key (frames c ! t)))\<rparr>)
             = invoked k (frames c ! t)"
    by (simp add: invoked_def)
  with read assms(2) show ?thesis
    by (simp add: count_inv_def invocations_def filter_update_same)
next
  case test
  then have "invoked k ((frames c ! t)
               \<lparr>fr_pc := (if \<not> fr_ok (frames c ! t) then L33 else L38)\<rparr>)
             = invoked k (frames c ! t)"
    by (simp add: invoked_def)
  with test assms(2) show ?thesis
    by (simp add: count_inv_def invocations_def filter_update_same)
next
  case invoke
  show ?thesis
  proof (cases "fr_key (frames c ! t) = k")
    case True
    with invoke have "invoked k ((frames c ! t)\<lparr>fr_pc := L33_run\<rparr>)" "\<not> invoked k (frames c ! t)"
      by (simp_all add: invoked_def)
    with invoke True assms(2) show ?thesis
      by (simp add: count_inv_def invocations_def filter_update_gain)
  next
    case False
    with invoke have "invoked k ((frames c ! t)\<lparr>fr_pc := L33_run\<rparr>) = invoked k (frames c ! t)"
      by (simp add: invoked_def)
    with invoke False assms(2) show ?thesis
      by (simp add: count_inv_def invocations_def filter_update_same)
  qed
next
  case yield
  then have "invoked k ((frames c ! t)
                \<lparr>fr_pc := L34, fr_res := fst (memo_f (memo c) (fr_key (frames c ! t)) (world c))\<rparr>)
             = invoked k (frames c ! t)"
    by (simp add: invoked_def)
  with yield assms(2) show ?thesis
    by (simp add: count_inv_def invocations_def filter_update_same)
next
  case store
  then have "invoked k ((frames c ! t)\<lparr>fr_pc := L36\<rparr>) = invoked k (frames c ! t)"
    by (simp add: invoked_def)
  with store assms(2) show ?thesis
    by (simp add: count_inv_def invocations_def filter_update_same)
next
  case return
  then have "invoked k ((frames c ! t)\<lparr>fr_pc := Returned\<rparr>) = invoked k (frames c ! t)"
    by (simp add: invoked_def)
  with return assms(2) show ?thesis
    by (simp add: count_inv_def invocations_def filter_update_same)
qed

lemma count_inv_race:
  assumes "race_step t c c'" "count_inv k c"
  shows "count_inv k c'"
  using assms(1)
proof (cases rule: race_step.cases)
  case (torn_read b r)
  then have "invoked k ((frames c ! t)\<lparr>fr_pc := L31, fr_res := r, fr_ok := b\<rparr>)
      = invoked k (frames c ! t)"
    by (simp add: invoked_def)
  with torn_read assms(2) show ?thesis
    by (simp add: count_inv_def invocations_def filter_update_same)
next
  case fatal_read
  with assms(2) show ?thesis by (simp add: count_inv_def invocations_def)
next
  case fatal_write
  with assms(2) show ?thesis by (simp add: count_inv_def invocations_def)
qed

lemma count_inv_init: "count_inv k (init f w keys)"
  by (simp add: count_inv_def invocations_def init_def invoked_def fresh_def filter_map o_def)

lemma reach_init_count: "reach (init f w keys) c \<Longrightarrow> count_inv k c"
proof (induction "init f w keys" c rule: reach.induct)
  case reach_refl
  show ?case by (rule count_inv_init)
next
  case (reach_step c' t c'')
  from reach_init_mover[OF reach_step.hyps(1)] reach_step.hyps(3)
  have "local_inv t c'" by blast
  with reach_step.hyps(3) reach_step.hyps(2) show ?case by (rule count_inv_step)
next
  case (reach_race c' t c'')
  from reach_race.hyps(3) reach_race.hyps(2) show ?case by (rule count_inv_race)
qed

lemma invoked_le: "length (filter (invoked k) frs) \<le> count_list (map fr_key frs) k"
  by (induction frs) (auto simp: invoked_def)

lemma invocations_pos: "Invoke u k \<in> set tr \<Longrightarrow> 1 \<le> invocations k tr"
  by (induction tr) (auto simp: invocations_def)

lemma quiet_step:
  assumes "step t c = Some c'" "cache (memo c) k = Some r" "quiet k c"
  shows "cache (memo c') k = Some r \<and> quiet k c'"
proof -
  from assms(3) have Q: "\<And>u. u < length (frames c) \<Longrightarrow> fr_key (frames c ! u) = k \<Longrightarrow>
      \<not> pending_store (frames c ! u)"
    by (simp add: quiet_def)
  from assms(1) show ?thesis
  proof (cases rule: stepE)
    case (lock p p')
    with Q[of t] assms(2) Q show ?thesis
      by (auto simp: quiet_def nth_list_update pending_store_def)
  next
    case (unlock p p')
    with Q[of t] assms(2) Q show ?thesis
      by (auto simp: quiet_def nth_list_update pending_store_def)
  next
    case fatal
    with assms(2) Q show ?thesis
      by (auto simp: quiet_def)
  next
    case read
    with Q[of t] assms(2) Q show ?thesis
      by (auto simp: quiet_def nth_list_update pending_store_def lookup_def)
  next
    case test
    with Q[of t] assms(2) Q show ?thesis
      by (auto simp: quiet_def nth_list_update pending_store_def)
  next
    case invoke
    with Q[of t] assms(2) Q show ?thesis
      by (auto simp: quiet_def nth_list_update pending_store_def)
  next
    case yield
    with Q[of t] assms(2) Q show ?thesis
      by (auto simp: quiet_def nth_list_update pending_store_def)
  next
    case store
    with Q[of t] assms(2) Q show ?thesis
      by (auto simp: quiet_def nth_list_update pending_store_def)
  next
    case return
    with Q[of t] assms(2) Q show ?thesis
      by (auto simp: quiet_def nth_list_update pending_store_def)
  qed
qed

lemma quiet_reach:
  "reach c c' \<Longrightarrow> race_free (trace c') \<Longrightarrow> cache (memo c) k = Some r \<Longrightarrow> quiet k c \<Longrightarrow>
   cache (memo c') k = Some r \<and> quiet k c'"
proof (induction rule: reach.induct)
  case (reach_refl c)
  then show ?case by simp
next
  case (reach_step c c' t c'')
  from reach_step.hyps(2) reach_step.prems(1) have "race_free (trace c')"
    by (rule step_race_free)
  with reach_step have "cache (memo c') k = Some r" "quiet k c'" by simp_all
  with reach_step.hyps(2) show ?case by (rule quiet_step)
next
  case (reach_race c c' t c'')
  from reach_race.hyps(2) reach_race.prems(1) show ?case by (simp add: race_not_free)
qed

lemma reach_present:
  "reach c c' \<Longrightarrow> cache (memo c) k = Some r \<Longrightarrow> \<exists>r'. cache (memo c') k = Some r'"
proof (induction rule: reach.induct)
  case (reach_refl c)
  then show ?case by simp
next
  case (reach_step c c' t c'')
  then obtain r' where "cache (memo c') k = Some r'" by blast
  with reach_step.hyps(2) show ?case by (rule step_present)
next
  case (reach_race c c' t c'')
  then obtain r' where "cache (memo c') k = Some r'" by blast
  with race_memo[OF reach_race.hyps(2)] show ?case by simp
qed

subsection \<open>The method alone and the method in steps\<close>

text \<open>
  The state-passing \<open>Get\<close> and the steps of a single call agree: on an unlocked
  mutex the call runs five steps (hit) or ten (miss), the last of which is the fatal
  \<^verbatim>\<open>Unlock\<close> of line 38, and the cache and the callback's state are then the ones
  \<open>Get\<close> gives; on a locked mutex neither moves.
\<close>

lemma Get_frame:
  "k' \<noteq> key \<Longrightarrow> cache (fst (snd (Get key (m, w)))) k' = cache m k'"
  by (simp add: prog_defs split: option.splits prod.splits mutex.splits)

lemma Get_memo_f:
  "memo_f (fst (snd (Get key (m, w)))) = memo_f m"
  by (simp add: prog_defs split: option.splits prod.splits mutex.splits)

lemma Get_alone_hit:
  assumes "\<not> crashed c" "t < length (frames c)" "frames c ! t = fresh key"
    "mu (memo c) = Unlocked" "cache (memo c) key = Some r"
  shows "\<exists>c'. exec [t, t, t, t, t] c = Some c' \<and> crashed c' \<and>
     fst (Get key (memo c, world c)) = Inl UnlockOfUnlockedMutex \<and>
     snd (Get key (memo c, world c)) = (memo c', world c')"
  using assms
  by (simp add: step_unfold fresh_def prog_defs)

lemma Get_alone_miss:
  assumes "\<not> crashed c" "t < length (frames c)" "frames c ! t = fresh key"
    "mu (memo c) = Unlocked" "cache (memo c) key = None"
  shows "\<exists>c'. exec [t, t, t, t, t, t, t, t, t, t] c = Some c' \<and> crashed c' \<and>
     fst (Get key (memo c, world c)) = Inl UnlockOfUnlockedMutex \<and>
     snd (Get key (memo c, world c)) = (memo c', world c')"
  using assms
  by (simp add: step_unfold fresh_def prog_defs split: prod.splits)

lemma Get_alone_blocked:
  assumes "\<not> crashed c" "t < length (frames c)" "frames c ! t = fresh key"
    "mu (memo c) = Locked"
  shows "step t c = None \<and> Get key (memo c, world c) = (Inl BlockedForever, (memo c, world c))"
  using assms
  by (simp add: step_unfold fresh_def prog_defs)

text \<open>
  In the interleaved executions a call can get through line 38, when another call
  holds the mutex at that moment; it has then released the mutex once more than it
  acquired it, and the other call has lost its lock.
\<close>

lemma returned_call_released_more:
  assumes "reach (init f w keys) c" "u < length keys" "fr_pc (frames c ! u) = Returned"
  shows "count_list (trace c) (Release u) = Suc (count_list (trace c) (Acquire u))"
proof -
  from assms(1,2) have "local_inv u c" by (rule reach_init_local)
  with assms(3) show ?thesis by (auto simp: local_inv_def split: if_splits)
qed

text \<open>
  While a call stands at line 33, before or inside the callback, it has acquired the
  mutex once and released it once.
\<close>

lemma callback_lines_unlocked:
  assumes "reach (init f w keys) c" "u < length keys"
    "fr_pc (frames c ! u) = L33 \<or> fr_pc (frames c ! u) = L33_run"
  shows "count_list (trace c) (Acquire u) = 1 \<and> count_list (trace c) (Release u) = 1"
proof -
  from assms(1,2) have "local_inv u c" by (rule reach_init_local)
  with assms(3) show ?thesis by (auto simp: local_inv_def)
qed

lemma snoc_eq_split:
  assumes "xs @ [x] = pre @ e # post"
  shows "(post = [] \<and> pre = xs \<and> e = x) \<or> (\<exists>post'. xs = pre @ e # post')"
proof (cases post rule: rev_cases)
  case Nil
  with assms show ?thesis by simp
next
  case (snoc post' y)
  with assms have "xs @ [x] = (pre @ e # post') @ [y]" by simp
  then have "xs = pre @ e # post'" by (simp only: append1_eq_conv)
  then show ?thesis by blast
qed

lemma append_eq_split:
  assumes "xs @ es = pre @ e # post" "e \<notin> set es"
  shows "\<exists>post'. xs = pre @ e # post'"
proof -
  from assms(1) obtain us where
    "(xs = pre @ us \<and> us @ es = e # post) \<or> (xs @ us = pre \<and> es = us @ e # post)"
    by (auto simp: append_eq_append_conv2)
  then show ?thesis
  proof
    assume a: "xs = pre @ us \<and> us @ es = e # post"
    show ?thesis
    proof (cases us)
      case Nil
      with a assms(2) show ?thesis by auto
    next
      case (Cons y ys)
      with a show ?thesis by auto
    qed
  next
    assume "xs @ us = pre \<and> es = us @ e # post"
    with assms(2) show ?thesis by auto
  qed
qed

subsection \<open>Two calls inside the critical section\<close>

text \<open>
  Three calls on \<open>''k''\<close>. Call 2 misses and gets its pair from the callback; call 0
  runs up to line 38; call 1 takes the mutex; call 0 releases it at line 38; call 2
  takes it and stores. Calls 1 and 2 are now both inside the critical section, call 1
  before its read: the read races the store of call 2. Carried out, it is recorded as
  a race; and it may as well return a pair that nobody stored.
\<close>

lemma racing_read_reachable:
  "map fr_pc (frames (after [2, 2, 2, 2, 2, 2, 0, 0, 0, 0, 0, 0, 0, 0, 0, 1, 0, 2, 2]
       (init counter_f 0 [''k'', ''k'', ''k''])))
     = [L39, L30, L36] \<and>
   mu (memo (after [2, 2, 2, 2, 2, 2, 0, 0, 0, 0, 0, 0, 0, 0, 0, 1, 0, 2, 2]
       (init counter_f 0 [''k'', ''k'', ''k'']))) = Locked \<and>
   \<not> crashed (after [2, 2, 2, 2, 2, 2, 0, 0, 0, 0, 0, 0, 0, 0, 0, 1, 0, 2, 2]
       (init counter_f 0 [''k'', ''k'', ''k''])) \<and>
   racing_read 1 (after [2, 2, 2, 2, 2, 2, 0, 0, 0, 0, 0, 0, 0, 0, 0, 1, 0, 2, 2]
       (init counter_f 0 [''k'', ''k'', ''k''])) \<and>
   \<not> race_free (trace (after [2, 2, 2, 2, 2, 2, 0, 0, 0, 0, 0, 0, 0, 0, 0, 1, 0, 2, 2, 1]
       (init counter_f 0 [''k'', ''k'', ''k''])))"
  by (simp add: run_defs counter_f_def race_free_def)

lemma torn_read_reachable:
  "\<exists>c. reach (init counter_f 0 [''k'', ''k'', ''k'']) c \<and> fr_pc (frames c ! 1) = L31 \<and>
     fr_ok (frames c ! 1) \<and> fr_res (frames c ! 1) = \<lparr>res_value = Some 42, res_err = None\<rparr>"
proof -
  let ?c = "(after [2, 2, 2, 2, 2, 2, 0, 0, 0, 0, 0, 0, 0, 0, 0, 1, 0, 2, 2]
       (init counter_f 0 [''k'', ''k'', ''k'']))"
  have a: "\<not> crashed ?c" "1 < length (frames ?c)" "fr_pc (frames ?c ! 1) = L30"
    "racing_read 1 ?c"
    by (simp_all add: run_defs counter_f_def)
  let ?d = "?c\<lparr>frames := (frames ?c)[1 := (frames ?c ! 1)
        \<lparr>fr_pc := L31, fr_res := \<lparr>res_value = Some 42, res_err = None\<rparr>, fr_ok := True\<rparr>],
      trace := trace ?c @ [Race 1],
      overlap_read := overlap_read ?c \<union> sharers 1 ?c\<rparr>"
  from a have "race_step 1 ?c ?d" by (rule torn_read)
  with after_reach have "reach (init counter_f 0 [''k'', ''k'', ''k'']) ?d" by (rule reach_race)
  moreover from a(2) have "fr_pc (frames ?d ! 1) = L31" "fr_ok (frames ?d ! 1)"
    "fr_res (frames ?d ! 1) = \<lparr>res_value = Some 42, res_err = None\<rparr>"
    by simp_all
  ultimately show ?thesis by blast
qed

subsection \<open>The claims\<close>

text \<open>
  Two calls of \<open>Get\<close> on the same key that both look the key up before either has
  stored its result both invoke the callback (the comment at lines 27 and 28 of the
  source says so): here call 0 and call 1 each run lines 29 to 33, one after the
  other, and no access to the map races.
\<close>

theorem two_calls_invoke_twice:
  "invocations ''k'' (trace (after [0, 0, 0, 0, 0, 1, 1, 1, 1, 1] (init counter_f 0 [''k'', ''k''])))
     = 2 \<and>
   race_free (trace (after [0, 0, 0, 0, 0, 1, 1, 1, 1, 1] (init counter_f 0 [''k'', ''k''])))"
  by (simp add: run_defs counter_f_def invocations_def race_free_def)

text \<open>
  Claim C1, amended. Whatever the interleaving and whatever the races do, a call
  invokes the callback at most once, so that the callback is invoked for a key \<open>k\<close> at
  most as many times as there are calls \<open>Get(k)\<close>; and as long as no access to the map
  has raced, it has been invoked for \<open>k\<close> at least once when a call \<open>Get(k)\<close> has
  returned.
\<close>

theorem Get_invocations_bounded:
  assumes "reach (init f w keys) c"
  shows "count_list (trace c) (Invoke u k) \<le> 1 \<and>
         invocations k (trace c) \<le> count_list keys k \<and>
         (race_free (trace c) \<and>
          (\<exists>v < length keys. keys ! v = k \<and> fr_pc (frames c ! v) = Returned) \<longrightarrow>
            1 \<le> invocations k (trace c))"
proof (intro conjI impI)
  show "count_list (trace c) (Invoke u k) \<le> 1"
  proof (cases "Invoke u k \<in> set (trace c)")
    case True
    with reach_init_own[OF assms] have u: "u < length (frames c)" "k = fr_key (frames c ! u)"
      by (auto simp: own_inv_def)
    from u(1) reach_length[OF assms] have "u < length keys" by simp
    with assms have "local_inv u c" by (rule reach_init_local)
    then have "count_list (trace c) (Invoke u k)
        = snd (snd (expected (fr_pc (frames c ! u)) (fr_ok (frames c ! u))))"
      using u(2) by (simp add: local_inv_def prod_eq_iff)
    also have "\<dots> \<le> 1" by (cases "fr_pc (frames c ! u)") simp_all
    finally show ?thesis .
  next
    case False
    then show ?thesis by (simp add: count_list_not_mem)
  qed
next
  from assms have "count_inv k c" by (rule reach_init_count)
  then have "invocations k (trace c) = length (filter (invoked k) (frames c))"
    by (simp add: count_inv_def)
  also have "\<dots> \<le> count_list (map fr_key (frames c)) k" by (rule invoked_le)
  also have "\<dots> = count_list keys k" using reach_init_keys[OF assms] by simp
  finally show "invocations k (trace c) \<le> count_list keys k" .
next
  assume a: "race_free (trace c) \<and>
          (\<exists>v < length keys. keys ! v = k \<and> fr_pc (frames c ! v) = Returned)"
  then obtain v where v: "v < length keys" "keys ! v = k" "fr_pc (frames c ! v) = Returned"
    by blast
  from reach_length[OF assms] v(1) have vl: "v < length (frames c)" by simp
  from reach_key[OF assms, of v] v(1,2) have key: "fr_key (frames c ! v) = k" by simp
  from reach_init_sound[OF assms] a have "prov c" by (simp add: sound_def)
  moreover from v(3) have "has_result (frames c ! v)" by (simp add: has_result_def)
  ultimately have "res_source v (frames c ! v) (trace c)"
    using vl unfolding prov_def by blast
  with key obtain u' where "Yield u' k (fr_res (frames c ! v)) \<in> set (trace c)"
    by (auto simp: res_source_def stored_def split: if_splits)
  with reach_init_asked[OF assms] have "Invoke u' k \<in> set (trace c)"
    unfolding asked_inv_def by blast
  then show "1 \<le> invocations k (trace c)" by (rule invocations_pos)
qed

text \<open>
  Two calls on \<open>''k''\<close>: call 0 runs up to line 38, call 1 takes the mutex, call 0
  gets through line 38 and returns.
\<close>

theorem Get_invocations_bounded_witness:
  "reach (init counter_f 0 [''k'', ''k''])
     (after [0, 0, 0, 0, 0, 0, 0, 0, 0, 1, 0, 0] (init counter_f 0 [''k'', ''k''])) \<and>
   race_free
     (trace (after [0, 0, 0, 0, 0, 0, 0, 0, 0, 1, 0, 0] (init counter_f 0 [''k'', ''k'']))) \<and>
   fr_pc (frames (after [0, 0, 0, 0, 0, 0, 0, 0, 0, 1, 0, 0] (init counter_f 0 [''k'', ''k''])) ! 0)
     = Returned \<and>
   count_list (trace (after [0, 0, 0, 0, 0, 0, 0, 0, 0, 1, 0, 0] (init counter_f 0 [''k'', ''k''])))
     (Invoke 0 ''k'') \<le> 1 \<and>
   invocations ''k''
     (trace (after [0, 0, 0, 0, 0, 0, 0, 0, 0, 1, 0, 0] (init counter_f 0 [''k'', ''k''])))
     \<le> count_list [''k'', ''k''] ''k'' \<and>
   1 \<le> invocations ''k''
     (trace (after [0, 0, 0, 0, 0, 0, 0, 0, 0, 1, 0, 0] (init counter_f 0 [''k'', ''k''])))"
proof -
  have r: "reach (init counter_f 0 [''k'', ''k''])
     (after [0, 0, 0, 0, 0, 0, 0, 0, 0, 1, 0, 0] (init counter_f 0 [''k'', ''k'']))"
    by (rule after_reach)
  have p: "fr_pc (frames (after [0, 0, 0, 0, 0, 0, 0, 0, 0, 1, 0, 0]
      (init counter_f 0 [''k'', ''k''])) ! 0) = Returned"
    by (simp add: run_defs counter_f_def)
  have f: "race_free
     (trace (after [0, 0, 0, 0, 0, 0, 0, 0, 0, 1, 0, 0] (init counter_f 0 [''k'', ''k''])))"
    by (simp add: run_defs counter_f_def race_free_def)
  from Get_invocations_bounded[OF r, of 0 "''k''"] p r f show ?thesis
    by auto
qed

text \<open>
  Claim C2. The claim asks that \<open>Get\<close> never aborts and never releases the mutex
  more often than it acquired it. The method does: run on an unlocked mutex, as by any
  single goroutine on a cache nobody else is using, it ends in the runtime's fatal
  error, for every key, cache content and callback.
\<close>

theorem Get_unlocks_unlocked_mutex:
  assumes "mu m = Unlocked"
  shows "fst (Get key (m, w)) = Inl UnlockOfUnlockedMutex"
  using assms by (simp add: prog_defs split: option.splits prod.splits)

text \<open>
  The first call on a new cache.
\<close>

theorem Get_unlocks_unlocked_mutex_witness:
  "mu (New counter_f) = Unlocked \<and>
   fst (Get ''x'' (New counter_f, 0)) = Inl UnlockOfUnlockedMutex"
proof -
  have u: "mu (New counter_f) = Unlocked" by (simp add: New_def)
  from Get_unlocks_unlocked_mutex[OF u] u show ?thesis by simp
qed

text \<open>
  Claim C3. The claim asks that \<open>Get\<close> on a key that is in the cache returns the
  stored pair without invoking the callback. The method finds the pair and does not
  invoke the callback (the cache and the callback's state are unchanged), but the
  \<^verbatim>\<open>Unlock\<close> at line 38 ends the process before the \<^verbatim>\<open>return\<close>.
\<close>

theorem Get_hit_aborts:
  assumes "mu m = Unlocked" "cache m key = Some r"
  shows "Get key (m, w) = (Inl UnlockOfUnlockedMutex, (m, w))"
  using assms by (simp add: prog_defs)

text \<open>
  A cache that holds \<^verbatim>\<open>(7, nil)\<close> for \<open>''k''\<close>.
\<close>

theorem Get_hit_aborts_witness:
  "mu ((New counter_f)\<lparr>cache := [''k'' \<mapsto> \<lparr>res_value = Some 7, res_err = None\<rparr>]\<rparr>) = Unlocked \<and>
   cache ((New counter_f)\<lparr>cache := [''k'' \<mapsto> \<lparr>res_value = Some 7, res_err = None\<rparr>]\<rparr>) ''k''
     = Some \<lparr>res_value = Some 7, res_err = None\<rparr> \<and>
   Get ''k'' ((New counter_f)\<lparr>cache := [''k'' \<mapsto> \<lparr>res_value = Some 7, res_err = None\<rparr>]\<rparr>, 5)
     = (Inl UnlockOfUnlockedMutex,
        ((New counter_f)\<lparr>cache := [''k'' \<mapsto> \<lparr>res_value = Some 7, res_err = None\<rparr>]\<rparr>, 5))"
proof -
  have u: "mu ((New counter_f)\<lparr>cache := [''k'' \<mapsto> \<lparr>res_value = Some 7, res_err = None\<rparr>]\<rparr>)
      = Unlocked"
    by (simp add: New_def)
  have h: "cache ((New counter_f)\<lparr>cache := [''k'' \<mapsto> \<lparr>res_value = Some 7, res_err = None\<rparr>]\<rparr>)
      ''k'' = Some \<lparr>res_value = Some 7, res_err = None\<rparr>"
    by simp
  from Get_hit_aborts[OF u h, of 5] u h show ?thesis by blast
qed

text \<open>
  Claim C4. The claim asks that \<open>Get\<close> on a key that is not in the cache invokes
  the callback once, returns its pair and leaves the pair in the cache. The method
  invokes the callback once and stores the pair, but the \<^verbatim>\<open>Unlock\<close> at line 38 ends
  the process before the \<^verbatim>\<open>return\<close>.
\<close>

theorem Get_miss_aborts:
  assumes "mu m = Unlocked" "cache m key = None"
  shows "Get key (m, w) =
    (Inl UnlockOfUnlockedMutex,
     (m\<lparr>cache := (cache m)(key \<mapsto> fst (memo_f m key w))\<rparr>, snd (memo_f m key w)))"
  using assms by (simp add: prog_defs split: prod.splits)

text \<open>
  A new cache, the callback's state at 5.
\<close>

theorem Get_miss_aborts_witness:
  "mu (New counter_f) = Unlocked \<and> cache (New counter_f) ''k'' = None \<and>
   Get ''k'' (New counter_f, 5) =
    (Inl UnlockOfUnlockedMutex,
     ((New counter_f)\<lparr>cache := [''k'' \<mapsto> \<lparr>res_value = Some 5, res_err = None\<rparr>]\<rparr>, 6))"
proof -
  have u: "mu (New counter_f) = Unlocked" by (simp add: New_def)
  have h: "cache (New counter_f) ''k'' = None" by (simp add: New_def)
  from Get_miss_aborts[OF u h, of 5] u h show ?thesis
    by (simp add: New_def counter_f_def)
qed

text \<open>
  Calls that have missed each return the pair of their own invocation. With four calls
  on \<open>''k''\<close>, calls 0 and 1 both miss, invoke the callback and store, one after the
  other; calls 2 and 3 take the mutex when calls 0 and 1 stand at line 38, which lets
  these two return: one returns \<^verbatim>\<open>(0, nil)\<close>, the other \<^verbatim>\<open>(1, nil)\<close>. Calls 2 and 3 do
  not touch the map, and no access to it races.
\<close>

theorem two_calls_return_different_pairs:
  "map fr_pc (frames (after [0, 0, 0, 1, 1, 1, 0, 0, 0, 0, 0, 0, 1, 1, 1, 1, 1, 1, 2, 0, 0, 3, 1, 1]
       (init counter_f 0 [''k'', ''k'', ''k'', ''k''])))
     = [Returned, Returned, L30, L30] \<and>
   Return 0 \<lparr>res_value = Some 0, res_err = None\<rparr>
     \<in> set (trace (after [0, 0, 0, 1, 1, 1, 0, 0, 0, 0, 0, 0, 1, 1, 1, 1, 1, 1, 2, 0, 0, 3, 1, 1]
       (init counter_f 0 [''k'', ''k'', ''k'', ''k'']))) \<and>
   Return 1 \<lparr>res_value = Some 1, res_err = None\<rparr>
     \<in> set (trace (after [0, 0, 0, 1, 1, 1, 0, 0, 0, 0, 0, 0, 1, 1, 1, 1, 1, 1, 2, 0, 0, 3, 1, 1]
       (init counter_f 0 [''k'', ''k'', ''k'', ''k'']))) \<and>
   race_free (trace (after [0, 0, 0, 1, 1, 1, 0, 0, 0, 0, 0, 0, 1, 1, 1, 1, 1, 1, 2, 0, 0, 3, 1, 1]
       (init counter_f 0 [''k'', ''k'', ''k'', ''k''])))"
  by (simp add: run_defs counter_f_def race_free_def)

text \<open>
  Claim C5, amended. As long as no access to the map has raced, every pair that a call
  \<open>Get(k)\<close> returns is a pair that an invocation of the callback on \<open>k\<close> returned: if
  the call's lookup missed (\<^verbatim>\<open>ok\<close> false), the pair of its own invocation; if it hit,
  a pair that some call stored under \<open>k\<close> after getting it from its own invocation.
  When the callback's answer depends on the key only, all calls \<open>Get(k)\<close> that return,
  return that same pair.
\<close>

theorem Get_returns_an_invocation_result:
  assumes "reach (init f w keys) c" "race_free (trace c)" "Return u r \<in> set (trace c)"
  shows "u < length keys \<and>
         (if fr_ok (frames c ! u) then stored (keys ! u) r (trace c)
          else Yield u (keys ! u) r \<in> set (trace c)) \<and>
         ((\<forall>k w'. fst (f k w') = g k) \<longrightarrow> r = g (keys ! u))"
proof -
  from reach_init_sound[OF assms(1)] assms(2) have p: "prov c" by (simp add: sound_def)
  with assms(3) have a: "u < length (frames c)" "fr_pc (frames c ! u) = Returned"
    "fr_res (frames c ! u) = r"
    unfolding prov_def by blast+
  from a(1) reach_length[OF assms(1)] have u: "u < length keys" by simp
  from reach_key[OF assms(1), of u] u have key: "fr_key (frames c ! u) = keys ! u" by simp
  from a(2) have "has_result (frames c ! u)" by (simp add: has_result_def)
  with p a(1) have "res_source u (frames c ! u) (trace c)" unfolding prov_def by blast
  with key a(3) have s: "if fr_ok (frames c ! u) then stored (keys ! u) r (trace c)
          else Yield u (keys ! u) r \<in> set (trace c)"
    by (auto simp: res_source_def split: if_splits)
  then obtain u' where y: "Yield u' (keys ! u) r \<in> set (trace c)"
    by (auto simp: stored_def split: if_splits)
  have "r = g (keys ! u)" if d: "\<forall>k w'. fst (f k w') = g k"
  proof -
    have "det_inv g (init f w keys)" by (simp add: det_inv_def init_def)
    moreover from d have "\<forall>k w'. fst (memo_f (memo (init f w keys)) k w') = g k"
      by (simp add: init_def New_def)
    ultimately have "det_inv g c" using assms(1) det_inv_reach by blast
    with y show ?thesis unfolding det_inv_def by blast
  qed
  with u s show ?thesis by blast
qed

text \<open>
  Two calls on \<open>''k''\<close> with the callback \<open>len_f\<close>; call 0 misses, and returns what
  its own invocation gave.
\<close>

theorem Get_returns_an_invocation_result_witness:
  "reach (init len_f 0 [''k'', ''k''])
     (after [0, 0, 0, 0, 0, 0, 0, 0, 0, 1, 0, 0] (init len_f 0 [''k'', ''k''])) \<and>
   race_free (trace (after [0, 0, 0, 0, 0, 0, 0, 0, 0, 1, 0, 0] (init len_f 0 [''k'', ''k'']))) \<and>
   Return 0 (len_result ''k'')
     \<in> set (trace (after [0, 0, 0, 0, 0, 0, 0, 0, 0, 1, 0, 0] (init len_f 0 [''k'', ''k'']))) \<and>
   (\<forall>k w'. fst (len_f k w') = len_result k) \<and>
   (0::nat) < length [''k'', ''k''] \<and>
   \<not> fr_ok (frames (after [0, 0, 0, 0, 0, 0, 0, 0, 0, 1, 0, 0] (init len_f 0 [''k'', ''k''])) ! 0) \<and>
   Yield 0 ([''k'', ''k''] ! 0) (len_result ''k'')
     \<in> set (trace (after [0, 0, 0, 0, 0, 0, 0, 0, 0, 1, 0, 0] (init len_f 0 [''k'', ''k'']))) \<and>
   len_result ''k'' = len_result ([''k'', ''k''] ! 0)"
proof -
  have r: "reach (init len_f 0 [''k'', ''k''])
     (after [0, 0, 0, 0, 0, 0, 0, 0, 0, 1, 0, 0] (init len_f 0 [''k'', ''k'']))"
    by (rule after_reach)
  have f: "race_free (trace (after [0, 0, 0, 0, 0, 0, 0, 0, 0, 1, 0, 0] (init len_f 0 [''k'', ''k''])))"
    by (simp add: run_defs len_f_def len_result_def race_free_def)
  have e: "Return 0 (len_result ''k'')
     \<in> set (trace (after [0, 0, 0, 0, 0, 0, 0, 0, 0, 1, 0, 0] (init len_f 0 [''k'', ''k''])))"
    by (simp add: run_defs len_f_def len_result_def)
  have d: "\<forall>k w'. fst (len_f k w') = len_result k"
    by (simp add: len_f_def)
  have o: "\<not> fr_ok (frames (after [0, 0, 0, 0, 0, 0, 0, 0, 0, 1, 0, 0] (init len_f 0 [''k'', ''k''])) ! 0)"
    by (simp add: run_defs len_f_def len_result_def)
  from Get_returns_an_invocation_result[OF r f e, of len_result] r f e d o show ?thesis
    by simp
qed

text \<open>
  Claim C6. At the moment a call invokes the callback, and at the moment the callback
  returns to it, the call has acquired the mutex once, for the lookup, and released it
  once: the lookup's lock is released before the invocation, the lock for the store is
  acquired only after the callback has returned, and in between the call holds no lock.
  This is the call's own lock; other calls may hold the mutex in the meantime.
\<close>

theorem no_lock_held_during_callback:
  assumes "reach (init f w keys) c" "trace c = pre @ e # post"
    "e = Invoke u k \<or> e = Yield u k r"
  shows "count_list pre (Acquire u) = 1 \<and> count_list pre (Release u) = 1"
  using assms
proof (induction "init f w keys" c arbitrary: pre post rule: reach.induct)
  case reach_refl
  then show ?case by (simp add: init_def)
next
  case (reach_step c' t c'')
  note IH = reach_step.hyps(2)
  note ev = reach_step.prems(2)
  from reach_init_mover[OF reach_step.hyps(1)] reach_step.hyps(3)
  have li: "local_inv t c'" by blast
  have old: "count_list pre (Acquire u) = 1 \<and> count_list pre (Release u) = 1"
    if "trace c' = pre @ e # post'" for post'
    using IH[OF that ev] .
  have others: "count_list pre (Acquire u) = 1 \<and> count_list pre (Release u) = 1"
    if tr: "trace c'' = trace c' @ es" and es: "e \<notin> set es" for es
  proof -
    from tr reach_step.prems(1) have "trace c' @ es = pre @ e # post" by simp
    from append_eq_split[OF this es] show ?thesis using old by blast
  qed
  have new: "count_list pre (Acquire u) = 1 \<and> count_list pre (Release u) = 1"
    if tr: "trace c'' = trace c' @ [x]"
      and x: "x = e \<Longrightarrow> pre = trace c' \<Longrightarrow>
          count_list (trace c') (Acquire u) = 1 \<and> count_list (trace c') (Release u) = 1"
    for x
  proof -
    from tr reach_step.prems(1) have "trace c' @ [x] = pre @ e # post" by simp
    from snoc_eq_split[OF this] show ?thesis
    proof
      assume "post = [] \<and> pre = trace c' \<and> e = x"
      with x show ?thesis by simp
    next
      assume "\<exists>post'. trace c' = pre @ e # post'"
      then show ?thesis using old by blast
    qed
  qed
  from reach_step.hyps(3) show ?case
  proof (cases rule: stepE)
    case (lock p p')
    show ?thesis by (rule others[of "[Acquire t]"]) (use lock ev in auto)
  next
    case (unlock p p')
    show ?thesis by (rule others[of "[Release t]"]) (use unlock ev in auto)
  next
    case fatal
    show ?thesis by (rule others[of "[Fatal t]"]) (use fatal ev in auto)
  next
    case read
    show ?thesis by (rule others[of "race_mark (racing_read t c') t"]) (use read ev in auto)
  next
    case test
    show ?thesis by (rule others[of "[]"]) (use test in auto)
  next
    case invoke
    show ?thesis
      by (rule new[of "Invoke t (fr_key (frames c' ! t))"])
        (use invoke ev li in \<open>auto simp: local_inv_def\<close>)
  next
    case yield
    show ?thesis
      by (rule new[of "Yield t (fr_key (frames c' ! t))
            (fst (memo_f (memo c') (fr_key (frames c' ! t)) (world c')))"])
        (use yield ev li in \<open>auto simp: local_inv_def\<close>)
  next
    case store
    show ?thesis
      by (rule others[of "race_mark (racing_write t c') t
            @ [Store t (fr_key (frames c' ! t)) (fr_res (frames c' ! t))]"])
        (use store ev in auto)
  next
    case return
    show ?thesis
      by (rule others[of "[Return t (fr_res (frames c' ! t))]"]) (use return ev in auto)
  qed
next
  case (reach_race c' t c'')
  note IH = reach_race.hyps(2)
  note ev = reach_race.prems(2)
  have others: "count_list pre (Acquire u) = 1 \<and> count_list pre (Release u) = 1"
    if tr: "trace c'' = trace c' @ es" and es: "e \<notin> set es" for es
  proof -
    from tr reach_race.prems(1) have "trace c' @ es = pre @ e # post" by simp
    from append_eq_split[OF this es] obtain post' where "trace c' = pre @ e # post'"
      by blast
    from IH[OF this ev] show ?thesis .
  qed
  from reach_race.hyps(3) show ?case
  proof (cases rule: race_step.cases)
    case (torn_read b r')
    show ?thesis by (rule others[of "[Race t]"]) (use torn_read ev in auto)
  next
    case fatal_read
    show ?thesis by (rule others[of "[Race t, Fatal t]"]) (use fatal_read ev in auto)
  next
    case fatal_write
    show ?thesis by (rule others[of "[Race t, Fatal t]"]) (use fatal_write ev in auto)
  qed
qed

text \<open>
  One call, six steps in: it has looked the key up, invoked the callback and got its
  answer.
\<close>

theorem no_lock_held_during_callback_witness:
  "reach (init counter_f 0 [''k'']) (after [0, 0, 0, 0, 0, 0] (init counter_f 0 [''k''])) \<and>
   trace (after [0, 0, 0, 0, 0, 0] (init counter_f 0 [''k'']))
     = [Acquire 0, Release 0] @ Invoke 0 ''k''
         # [Yield 0 ''k'' \<lparr>res_value = Some 0, res_err = None\<rparr>] \<and>
   (Invoke 0 ''k'' = (Invoke 0 ''k'' :: (nat, string) event) \<or>
    Invoke 0 ''k'' = (Yield 0 ''k'' zero_result :: (nat, string) event)) \<and>
   count_list [Acquire 0, Release 0] (Acquire 0 :: (nat, string) event) = 1 \<and>
   count_list [Acquire 0, Release 0] (Release 0 :: (nat, string) event) = 1"
proof -
  have r: "reach (init counter_f 0 [''k''])
      (after [0, 0, 0, 0, 0, 0] (init counter_f 0 [''k'']))"
    by (rule after_reach)
  have t: "trace (after [0, 0, 0, 0, 0, 0] (init counter_f 0 [''k'']))
     = [Acquire 0, Release 0] @ Invoke 0 ''k''
         # [Yield 0 ''k'' \<lparr>res_value = Some 0, res_err = None\<rparr>]"
    by (simp add: run_defs counter_f_def)
  have e: "Invoke 0 ''k'' = (Invoke 0 ''k'' :: (nat, string) event) \<or>
      Invoke 0 ''k'' = (Yield 0 ''k'' zero_result :: (nat, string) event)"
    by simp
  from no_lock_held_during_callback[OF r t e] r t e show ?thesis
    by blast
qed

text \<open>
  A stored pair can change: calls 0 and 1 both miss and invoke the callback, call 0
  stores \<^verbatim>\<open>(0, nil)\<close>, then call 1 stores \<^verbatim>\<open>(1, nil)\<close> over it. The critical sections
  follow one another and no access to the map races.
\<close>

theorem stored_pair_overwritten:
  "cache (memo (after [0, 0, 0, 0, 0, 0, 1, 1, 1, 1, 1, 1, 0, 0, 0]
       (init counter_f 0 [''k'', ''k'']))) ''k''
     = Some \<lparr>res_value = Some 0, res_err = None\<rparr> \<and>
   cache (memo (after [0, 0, 0, 0, 0, 0, 1, 1, 1, 1, 1, 1, 0, 0, 0, 1, 1]
       (init counter_f 0 [''k'', ''k'']))) ''k''
     = Some \<lparr>res_value = Some 1, res_err = None\<rparr> \<and>
   race_free (trace (after [0, 0, 0, 0, 0, 0, 1, 1, 1, 1, 1, 1, 0, 0, 0, 1, 1]
       (init counter_f 0 [''k'', ''k''])))"
  by (simp add: run_defs counter_f_def race_free_def)

text \<open>
  Claim C7, amended. As long as no access to the map races: once the cache maps \<open>k\<close>
  to a pair, \<open>k\<close> stays in the cache; and the pair stays the same if, at that moment,
  no call on \<open>k\<close> is between a lookup that missed and its store (calls that look \<open>k\<close>
  up from then on find it and do not write). Only a call \<open>Get(k)\<close> that had already
  missed can overwrite the pair.
\<close>

theorem cache_entry_stays:
  assumes "reach (init f w keys) c" "reach c c'" "race_free (trace c')"
    "cache (memo c) k = Some r"
  shows "(\<exists>r'. cache (memo c') k = Some r') \<and> (quiet k c \<longrightarrow> cache (memo c') k = Some r)"
proof
  from assms(2,4) show "\<exists>r'. cache (memo c') k = Some r'" by (rule reach_present)
next
  show "quiet k c \<longrightarrow> cache (memo c') k = Some r"
    using quiet_reach[OF assms(2,3,4)] by simp
qed

text \<open>
  Call 0 has stored its pair and stands at line 38, call 1 has not started; then
  call 1 runs lines 29 and 30.
\<close>

theorem cache_entry_stays_witness:
  "reach (init counter_f 0 [''k'', ''k''])
     (after [0, 0, 0, 0, 0, 0, 0, 0, 0] (init counter_f 0 [''k'', ''k''])) \<and>
   reach (after [0, 0, 0, 0, 0, 0, 0, 0, 0] (init counter_f 0 [''k'', ''k'']))
     (after [1, 1] (after [0, 0, 0, 0, 0, 0, 0, 0, 0] (init counter_f 0 [''k'', ''k'']))) \<and>
   race_free (trace (after [1, 1] (after [0, 0, 0, 0, 0, 0, 0, 0, 0] (init counter_f 0 [''k'', ''k''])))) \<and>
   cache (memo (after [0, 0, 0, 0, 0, 0, 0, 0, 0] (init counter_f 0 [''k'', ''k'']))) ''k''
     = Some \<lparr>res_value = Some 0, res_err = None\<rparr> \<and>
   quiet ''k'' (after [0, 0, 0, 0, 0, 0, 0, 0, 0] (init counter_f 0 [''k'', ''k''])) \<and>
   cache (memo (after [1, 1] (after [0, 0, 0, 0, 0, 0, 0, 0, 0] (init counter_f 0 [''k'', ''k''])))) ''k''
     = Some \<lparr>res_value = Some 0, res_err = None\<rparr>"
proof -
  have i: "reach (init counter_f 0 [''k'', ''k''])
     (after [0, 0, 0, 0, 0, 0, 0, 0, 0] (init counter_f 0 [''k'', ''k'']))"
    by (rule after_reach)
  have r: "reach (after [0, 0, 0, 0, 0, 0, 0, 0, 0] (init counter_f 0 [''k'', ''k'']))
     (after [1, 1] (after [0, 0, 0, 0, 0, 0, 0, 0, 0] (init counter_f 0 [''k'', ''k''])))"
    by (rule after_reach)
  have f: "race_free (trace (after [1, 1] (after [0, 0, 0, 0, 0, 0, 0, 0, 0] (init counter_f 0 [''k'', ''k'']))))"
    by (simp add: run_defs counter_f_def race_free_def)
  have s: "cache (memo (after [0, 0, 0, 0, 0, 0, 0, 0, 0] (init counter_f 0 [''k'', ''k'']))) ''k''
     = Some \<lparr>res_value = Some 0, res_err = None\<rparr>"
    by (simp add: run_defs counter_f_def)
  have q: "quiet ''k'' (after [0, 0, 0, 0, 0, 0, 0, 0, 0] (init counter_f 0 [''k'', ''k'']))"
    by (simp add: run_defs counter_f_def quiet_def pending_store_def less_Suc_eq)
  from cache_entry_stays[OF i r f s] i r f s q show ?thesis
    by blast
qed

text \<open>
  Claim C8. \<open>New f\<close> has an empty cache and the callback \<open>f\<close>; the executions
  start from it, and neither a step of a call nor the method run alone changes the
  callback.
\<close>

theorem New_empty_callback_fixed:
  assumes "reach (init f w keys) c"
  shows "cache (New f) = Map.empty \<and> memo_f (New f) = f \<and> memo (init f w keys) = New f \<and>
         memo_f (memo c) = f \<and> memo_f (fst (snd (Get key (memo c, world c)))) = f"
proof -
  have "memo_f (memo c) = memo_f (memo (init f w keys))" using assms by (rule reach_memo_f)
  then have "memo_f (memo c) = f" by (simp add: init_def New_def)
  then show ?thesis by (simp add: Get_memo_f) (simp add: init_def New_def)
qed

text \<open>
  One call, eight steps in (it has stored its pair).
\<close>

theorem New_empty_callback_fixed_witness:
  "reach (init counter_f 0 [''k'']) (after [0, 0, 0, 0, 0, 0, 0, 0] (init counter_f 0 [''k''])) \<and>
   cache (New counter_f) = Map.empty \<and> memo_f (New counter_f) = counter_f \<and>
   memo_f (memo (after [0, 0, 0, 0, 0, 0, 0, 0] (init counter_f 0 [''k'']))) = counter_f"
proof -
  have r: "reach (init counter_f 0 [''k''])
      (after [0, 0, 0, 0, 0, 0, 0, 0] (init counter_f 0 [''k'']))"
    by (rule after_reach)
  from New_empty_callback_fixed[OF r] r show ?thesis by blast
qed

text \<open>
  Claim C9. A step of a call \<open>Get(k)\<close> leaves the cache as it is at every key other
  than \<open>k\<close>, and so does the method run alone.
\<close>

theorem Get_leaves_other_keys:
  assumes "step t c = Some c'" "k' \<noteq> fr_key (frames c ! t)"
  shows "cache (memo c') k' = cache (memo c) k' \<and>
         cache (fst (snd (Get (fr_key (frames c ! t)) (memo c, world c)))) k' = cache (memo c) k'"
  using assms by (simp add: step_frame Get_frame)

text \<open>
  The store at line 35 of a call on \<open>''a''\<close> changes \<open>''a''\<close> and not \<open>''b''\<close>.
\<close>

theorem Get_leaves_other_keys_witness:
  "step 0 (after [0, 0, 0, 0, 0, 0, 0] (init counter_f 0 [''a'']))
     = Some (after [0, 0, 0, 0, 0, 0, 0, 0] (init counter_f 0 [''a''])) \<and>
   ''b'' \<noteq> fr_key (frames (after [0, 0, 0, 0, 0, 0, 0] (init counter_f 0 [''a''])) ! 0) \<and>
   cache (memo (after [0, 0, 0, 0, 0, 0, 0, 0] (init counter_f 0 [''a'']))) ''a''
     = Some \<lparr>res_value = Some 0, res_err = None\<rparr> \<and>
   cache (memo (after [0, 0, 0, 0, 0, 0, 0, 0] (init counter_f 0 [''a'']))) ''b''
     = cache (memo (after [0, 0, 0, 0, 0, 0, 0] (init counter_f 0 [''a'']))) ''b''"
proof -
  have s: "step 0 (after [0, 0, 0, 0, 0, 0, 0] (init counter_f 0 [''a'']))
     = Some (after [0, 0, 0, 0, 0, 0, 0, 0] (init counter_f 0 [''a'']))"
    by (simp add: run_defs counter_f_def)
  have k: "''b'' \<noteq> fr_key (frames (after [0, 0, 0, 0, 0, 0, 0] (init counter_f 0 [''a''])) ! 0)"
    by (simp add: run_defs counter_f_def)
  have w: "cache (memo (after [0, 0, 0, 0, 0, 0, 0, 0] (init counter_f 0 [''a'']))) ''a''
     = Some \<lparr>res_value = Some 0, res_err = None\<rparr>"
    by (simp add: run_defs counter_f_def)
  from Get_leaves_other_keys[OF s k] s k w show ?thesis by blast
qed

text \<open>
  Claim C10. The claim asks that a pair \<^verbatim>\<open>(nil, nil)\<close> is stored by the first call
  and returned by the second without a new invocation. With a callback that answers
  \<^verbatim>\<open>(nil, nil)\<close>, the first call on a new cache invokes it once and stores the pair,
  and a call on the cache so filled finds the pair by the map's \<^verbatim>\<open>ok\<close> and invokes
  nothing; but each of the two ends in the fatal \<^verbatim>\<open>Unlock\<close> of line 38 and returns
  nothing.
\<close>

theorem Get_nil_result_aborts:
  "Get ''k'' (New nil_f, 0)
     = (Inl UnlockOfUnlockedMutex, ((New nil_f)\<lparr>cache := [''k'' \<mapsto> zero_result]\<rparr>, 1)) \<and>
   Get ''k'' ((New nil_f)\<lparr>cache := [''k'' \<mapsto> zero_result]\<rparr>, 1)
     = (Inl UnlockOfUnlockedMutex, ((New nil_f)\<lparr>cache := [''k'' \<mapsto> zero_result]\<rparr>, 1))"
  by (simp add: prog_defs New_def nil_f_def)

end
